theory Spec2Isabelle
  imports Complex_Main
begin

section \<open>Data model: cells, columns, frames\<close>

text \<open>
  The function under study is \<open>DataLoader.merge_with_bundesland\<close> of
  \<open>src/data_processing/data_loader.py\<close>. It works on pandas data frames. A frame is
  modelled column by column, in column order, with the default positional index
  \<open>0, 1, ..\<close> that \<open>read_csv\<close> produces. A cell is a missing value (NaN), a Python
  string or a number. Python strings are lists of code points below 256.
\<close>

datatype cell = NaN | Str string | Num int

type_synonym series = "cell list"

type_synonym dataframe = "(string \<times> series) list"

datatype py_error =
    KeyError cell
  | AttributeError
  | TypeError
  | ZeroDivisionError

text \<open>The calls of \<open>logger\<close> made by the function, in the order of the source.\<close>

datatype log_record =
    LogWarningEmpty
  | LogInfoFuzzy nat
  | LogDebugMatch cell cell cell
  | LogInfoResults nat nat
  | LogWarningSample "cell list"
  | LogError py_error

text \<open>
  A computation that has logged some records and then either raised or returned.
\<close>

type_synonym 'a res = "log_record list \<times> (py_error + 'a)"

definition ret :: "'a \<Rightarrow> 'a res" where
  "ret x = ([], Inr x)"

definition raise :: "py_error \<Rightarrow> 'a res" where
  "raise e = ([], Inl e)"

definition logmsg :: "log_record \<Rightarrow> unit res" where
  "logmsg r = ([r], Inr ())"

definition lift :: "py_error + 'a \<Rightarrow> 'a res" where
  "lift v = ([], v)"

definition bind_res :: "'a res \<Rightarrow> ('a \<Rightarrow> 'b res) \<Rightarrow> 'b res" where
  "bind_res m f =
     (case m of
        (l, Inl e) \<Rightarrow> (l, Inl e)
      | (l, Inr x) \<Rightarrow> (case f x of (l', r) \<Rightarrow> (l @ l', r)))"

section \<open>Frame operations\<close>

text \<open>\<open>df.empty\<close>: no column, or no row.\<close>

definition df_empty :: "dataframe \<Rightarrow> bool" where
  "df_empty d = (case d of [] \<Rightarrow> True | (k, v) # _ \<Rightarrow> v = [])"

text \<open>\<open>len(df)\<close>: the number of rows.\<close>

definition df_len :: "dataframe \<Rightarrow> nat" where
  "df_len d = (case d of [] \<Rightarrow> 0 | (k, v) # _ \<Rightarrow> length v)"

text \<open>\<open>df[k]\<close> raises KeyError for a column that is not there.\<close>

definition getitem :: "dataframe \<Rightarrow> string \<Rightarrow> py_error + series" where
  "getitem d k = (case map_of d k of None \<Rightarrow> Inl (KeyError (Str k)) | Some v \<Rightarrow> Inr v)"

text \<open>\<open>df[k] = v\<close> replaces the column in place, or appends a new last column.\<close>

fun setitem :: "dataframe \<Rightarrow> string \<Rightarrow> series \<Rightarrow> dataframe" where
  "setitem [] k v = [(k, v)]"
| "setitem ((k', v') # d) k v =
     (if k' = k then (k, v) # d else (k', v') # setitem d k v)"

text \<open>\<open>df.drop(columns=[k])\<close> raises KeyError for a column that is not there.\<close>

definition drop_column :: "dataframe \<Rightarrow> string \<Rightarrow> py_error + dataframe" where
  "drop_column d k =
     (if map_of d k = None then Inl (KeyError (Str k))
      else Inr (filter (\<lambda>p. fst p \<noteq> k) d))"

text \<open>Every column has as many cells as the frame has rows.\<close>

definition wf_frame :: "dataframe \<Rightarrow> bool" where
  "wf_frame d = list_all (\<lambda>p. length (snd p) = df_len d) d"

section \<open>String normalisation\<close>

definition is_space :: "char \<Rightarrow> bool" where
  "is_space c =
     (let n = (of_char c :: nat)
      in (9 \<le> n \<and> n \<le> 13) \<or> (28 \<le> n \<and> n \<le> 32) \<or> n = 133 \<or> n = 160)"

definition lower_char :: "char \<Rightarrow> char" where
  "lower_char c =
     (let n = (of_char c :: nat)
      in if (65 \<le> n \<and> n \<le> 90) \<or> (192 \<le> n \<and> n \<le> 222 \<and> n \<noteq> 215)
         then char_of (n + 32) else c)"

definition str_strip :: "string \<Rightarrow> string" where
  "str_strip s = rev (dropWhile is_space (rev (dropWhile is_space s)))"

definition str_lower :: "string \<Rightarrow> string" where
  "str_lower s = map lower_char s"

text \<open>
  \<open>series.str.strip().str.lower()\<close>. The \<open>.str\<close> accessor maps a cell that is not a
  string to NaN. It refuses a column that holds no string at all (a numeric column,
  which is also what \<open>read_csv\<close> makes of a column without any value) with an
  AttributeError.
\<close>

fun is_Str :: "cell \<Rightarrow> bool" where
  "is_Str (Str s) = True"
| "is_Str _ = False"

fun clean_cell :: "cell \<Rightarrow> cell" where
  "clean_cell (Str s) = Str (str_lower (str_strip s))"
| "clean_cell _ = NaN"

definition str_strip_lower :: "series \<Rightarrow> py_error + series" where
  "str_strip_lower s =
     (if list_ex is_Str s then Inr (map clean_cell s) else Inl AttributeError)"

section \<open>The mapping and the exact pass\<close>

text \<open>
  \<open>dict(zip(keys, values))\<close>: the pairs are stored in order, a later pair
  overwriting an earlier one with the same key.
\<close>

definition dict_zip :: "cell list \<Rightarrow> cell list \<Rightarrow> (cell \<rightharpoonup> cell)" where
  "dict_zip ks vs = fold (\<lambda>(k, v) m. m(k \<mapsto> v)) (zip ks vs) Map.empty"

text \<open>
  \<open>series.map(mapping)\<close>: a value that is not a key becomes NaN. A missing value is
  looked up like any other value: pandas finds a NaN key of the dictionary.
\<close>

definition series_map :: "(cell \<rightharpoonup> cell) \<Rightarrow> series \<Rightarrow> series" where
  "series_map m s = map (\<lambda>c. case m c of None \<Rightarrow> NaN | Some v \<Rightarrow> v) s"

text \<open>\<open>pd.notna\<close> and \<open>series.isna()\<close>.\<close>

definition notna :: "cell \<Rightarrow> bool" where
  "notna c = (c \<noteq> NaN)"

text \<open>The row positions selected by the mask \<open>series.isna()\<close>, in order.\<close>

definition isna_index :: "series \<Rightarrow> nat list" where
  "isna_index s = filter (\<lambda>i. \<not> notna (s ! i)) [0..<length s]"

text \<open>\<open>series.unique()\<close>: the distinct values in order of first appearance.\<close>

definition unique :: "'a list \<Rightarrow> 'a list" where
  "unique xs = fold (\<lambda>x acc. if x \<in> set acc then acc else acc @ [x]) xs []"

section \<open>The fuzzy pass\<close>

text \<open>\<open>set(x)\<close> iterates a string; a number (NaN is a float) is not iterable.\<close>

fun chars :: "cell \<Rightarrow> py_error + string" where
  "chars (Str s) = Inr s"
| "chars _ = Inl TypeError"

text \<open>
  \<open>len(set(a) & set(b)) / max(len(set(a)), len(set(b)))\<close>. Python divides two
  integers into a float; the quotients of set sizes and the constant 0.5 compare as
  floats exactly as they do as rationals, so the score is a rational here.
\<close>

definition similarity :: "string \<Rightarrow> string \<Rightarrow> py_error + rat" where
  "similarity a b =
     (let n = length (remdups (filter (\<lambda>c. c \<in> set b) a));
          d = max (length (remdups a)) (length (remdups b))
      in if d = 0 then Inl ZeroDivisionError else Inr (of_nat n / of_nat d))"

definition score :: "cell \<Rightarrow> cell \<Rightarrow> py_error + rat" where
  "score city_name available_city =
     (case chars city_name of
        Inl e \<Rightarrow> Inl e
      | Inr a \<Rightarrow>
          (case chars available_city of
             Inl e \<Rightarrow> Inl e
           | Inr b \<Rightarrow> similarity a b))"

text \<open>
  The inner loop over \<open>cities_clean['Stadt_clean'].unique()\<close>, with the loop state
  \<open>(best_match, best_score)\<close>; \<open>None\<close> is Python's None.
\<close>

fun best_match_loop ::
  "cell \<Rightarrow> cell list \<Rightarrow> cell option \<times> rat \<Rightarrow> py_error + (cell option \<times> rat)" where
  "best_match_loop city_name [] st = Inr st"
| "best_match_loop city_name (available_city # rest) (best_match, best_score) =
     (if notna available_city then
        (case score city_name available_city of
           Inl e \<Rightarrow> Inl e
         | Inr sc \<Rightarrow>
             if sc > best_score \<and> sc > 1 / 2
             then best_match_loop city_name rest (Some available_city, sc)
             else best_match_loop city_name rest (best_match, best_score))
      else best_match_loop city_name rest (best_match, best_score))"

text \<open>\<open>if best_match:\<close> tests truthiness: None, the empty string and 0 are false.\<close>

fun truthy :: "cell option \<Rightarrow> bool" where
  "truthy None = False"
| "truthy (Some (Str s)) = (s \<noteq> [])"
| "truthy (Some (Num n)) = (n \<noteq> 0)"
| "truthy (Some NaN) = True"

text \<open>\<open>mapping[k]\<close> raises KeyError for a key that is not there.\<close>

definition dict_get :: "(cell \<rightharpoonup> cell) \<Rightarrow> cell \<Rightarrow> py_error + cell" where
  "dict_get m k = (case m k of None \<Rightarrow> Inl (KeyError k) | Some v \<Rightarrow> Inr v)"

text \<open>
  The outer loop \<open>for idx in df_enhanced[unmatched_mask].index\<close>. The loop reads
  the column of cleaned names, which it never writes, and writes
  \<open>df_enhanced.loc[idx, 'bundesland']\<close>: it is modelled on these two columns.
\<close>

fun fuzzy_loop ::
  "(cell \<rightharpoonup> cell) \<Rightarrow> cell list \<Rightarrow> series \<Rightarrow> nat list \<Rightarrow> series \<Rightarrow> series res" where
  "fuzzy_loop m available clean [] bl = ret bl"
| "fuzzy_loop m available clean (idx # idxs) bl =
     (let city_name = clean ! idx in
      if notna city_name then
        bind_res (lift (best_match_loop city_name available (None, 0))) (\<lambda>(best_match, best_score).
          if truthy best_match then
            bind_res (lift (dict_get m (the best_match))) (\<lambda>region.
            bind_res (logmsg (LogDebugMatch city_name (the best_match) region)) (\<lambda>_.
              fuzzy_loop m available clean idxs (bl[idx := region])))
          else fuzzy_loop m available clean idxs bl)
      else fuzzy_loop m available clean idxs bl)"

section \<open>The merge\<close>

text \<open>
  Lines 218 to 240: the rows whose \<open>bundesland\<close> is missing after the exact pass go
  through the fuzzy loop. The mask is computed once, before the loop.
\<close>

definition fuzzy_pass ::
  "(cell \<rightharpoonup> cell) \<Rightarrow> series \<Rightarrow> dataframe \<Rightarrow> string \<Rightarrow> dataframe res" where
  "fuzzy_pass city_bundesland_mapping stadt_clean df2 df_city_column =
     bind_res (lift (getitem df2 ''bundesland'')) (\<lambda>bl.
     let unmatched = isna_index bl in
     if length unmatched > 0 then
       bind_res (logmsg (LogInfoFuzzy (length unmatched))) (\<lambda>_.
       bind_res (lift (getitem df2 (df_city_column @ ''_clean''))) (\<lambda>clean.
       bind_res (fuzzy_loop city_bundesland_mapping (unique stadt_clean) clean unmatched bl) (\<lambda>bl'.
         ret (setitem df2 ''bundesland'' bl'))))
     else ret df2)"

text \<open>
  Lines 242 to 255: the temporary column is dropped, the match counts are logged, and
  up to five distinct city values of the unmatched rows.
\<close>

definition report :: "dataframe \<Rightarrow> string \<Rightarrow> dataframe res" where
  "report df3 df_city_column =
     bind_res (lift (drop_column df3 (df_city_column @ ''_clean''))) (\<lambda>df4.
     let total_rows = df_len df4 in
     bind_res (lift (getitem df4 ''bundesland'')) (\<lambda>bl4.
     let matched_rows = length (filter notna bl4) in
     bind_res (if total_rows = 0 then raise ZeroDivisionError else ret ()) (\<lambda>_.
     bind_res (logmsg (LogInfoResults matched_rows total_rows)) (\<lambda>_.
     bind_res
       (if matched_rows < total_rows then
          bind_res (lift (getitem df4 df_city_column)) (\<lambda>cc.
            logmsg (LogWarningSample
              (take 5 (unique (map snd (filter (\<lambda>p. \<not> notna (fst p)) (zip bl4 cc)))))))
        else ret ()) (\<lambda>_.
       ret df4)))))"

text \<open>The body of the \<open>try\<close> block.\<close>

definition merge_try :: "dataframe \<Rightarrow> dataframe \<Rightarrow> string \<Rightarrow> dataframe res" where
  "merge_try df cities_df df_city_column =
     (if df_empty df \<or> df_empty cities_df then
        bind_res (logmsg LogWarningEmpty) (\<lambda>_. ret df)
      else
        bind_res (lift (getitem df df_city_column)) (\<lambda>city_col.
        bind_res (lift (str_strip_lower city_col)) (\<lambda>city_clean.
        let df1 = setitem df (df_city_column @ ''_clean'') city_clean in
        bind_res (lift (getitem cities_df ''Stadt'')) (\<lambda>stadt.
        bind_res (lift (str_strip_lower stadt)) (\<lambda>stadt_clean0.
        let cities_clean = setitem cities_df ''Stadt_clean'' stadt_clean0 in
        bind_res (lift (getitem cities_clean ''Stadt_clean'')) (\<lambda>stadt_clean.
        bind_res (lift (getitem cities_clean ''Bundesland'')) (\<lambda>bundesland.
        let city_bundesland_mapping = dict_zip stadt_clean bundesland in
        bind_res (lift (getitem df1 (df_city_column @ ''_clean''))) (\<lambda>clean.
        let df2 = setitem df1 ''bundesland'' (series_map city_bundesland_mapping clean) in
        bind_res (fuzzy_pass city_bundesland_mapping stadt_clean df2 df_city_column) (\<lambda>df3.
          report df3 df_city_column)))))))))"

text \<open>
  The whole method: \<open>except Exception\<close> logs the error and returns \<open>df\<close>. A left
  value of the result would be an exception that reaches the caller.
\<close>

definition merge_with_bundesland :: "dataframe \<Rightarrow> dataframe \<Rightarrow> string \<Rightarrow> dataframe res" where
  "merge_with_bundesland df cities_df df_city_column =
     (case merge_try df cities_df df_city_column of
        (l, Inr r) \<Rightarrow> (l, Inr r)
      | (l, Inl e) \<Rightarrow> (l @ [LogError e], Inr df))"

section \<open>Object identity\<close>

text \<open>
  To say which frame object the method returns and which objects it writes, the frames
  live in a store: an address is a position in the list of all frame objects, and a new
  object is appended. \<open>df.copy()\<close>, \<open>cities_df.copy()\<close> and \<open>drop\<close> make new
  objects; the assignments \<open>df_enhanced[..] = ..\<close>, \<open>cities_clean[..] = ..\<close> and
  \<open>df_enhanced.loc[..] = ..\<close> write the object they name. Logging is left to
  \<open>merge_try\<close>. When the fuzzy loop raises, the copy (which nothing refers to any
  more) is left here as it was before the loop.
\<close>

type_synonym heap = "dataframe list"

definition merge_try_heap :: "heap \<Rightarrow> nat \<Rightarrow> nat \<Rightarrow> string \<Rightarrow> heap \<times> (py_error + nat)" where
  "merge_try_heap h df cities_df df_city_column =
     (if df_empty (h ! df) \<or> df_empty (h ! cities_df) then (h, Inr df)
      else
        let df_enhanced = length h; h1 = h @ [h ! df] in
        case getitem (h1 ! df_enhanced) df_city_column of Inl e \<Rightarrow> (h1, Inl e) | Inr city_col \<Rightarrow>
        case str_strip_lower city_col of Inl e \<Rightarrow> (h1, Inl e) | Inr city_clean \<Rightarrow>
        let h2 = h1[df_enhanced := setitem (h1 ! df_enhanced) (df_city_column @ ''_clean'') city_clean];
            cities_clean = length h2; h3 = h2 @ [h2 ! cities_df] in
        case getitem (h3 ! cities_clean) ''Stadt'' of Inl e \<Rightarrow> (h3, Inl e) | Inr stadt \<Rightarrow>
        case str_strip_lower stadt of Inl e \<Rightarrow> (h3, Inl e) | Inr stadt_clean0 \<Rightarrow>
        let h4 = h3[cities_clean := setitem (h3 ! cities_clean) ''Stadt_clean'' stadt_clean0] in
        case getitem (h4 ! cities_clean) ''Stadt_clean'' of Inl e \<Rightarrow> (h4, Inl e) | Inr stadt_clean \<Rightarrow>
        case getitem (h4 ! cities_clean) ''Bundesland'' of Inl e \<Rightarrow> (h4, Inl e) | Inr bundesland \<Rightarrow>
        let city_bundesland_mapping = dict_zip stadt_clean bundesland in
        case getitem (h4 ! df_enhanced) (df_city_column @ ''_clean'') of Inl e \<Rightarrow> (h4, Inl e) | Inr clean \<Rightarrow>
        let h5 = h4[df_enhanced := setitem (h4 ! df_enhanced) ''bundesland''
                                     (series_map city_bundesland_mapping clean)] in
        case snd (fuzzy_pass city_bundesland_mapping stadt_clean (h5 ! df_enhanced) df_city_column) of
          Inl e \<Rightarrow> (h5, Inl e)
        | Inr df3 \<Rightarrow>
        let h6 = h5[df_enhanced := df3] in
        case snd (report (h6 ! df_enhanced) df_city_column) of
          Inl e \<Rightarrow> (h6, Inl e)
        | Inr df4 \<Rightarrow> (h6 @ [df4], Inr (length h6)))"

text \<open>The method: the new store and the address of the frame it returns.\<close>

definition merge_with_bundesland_heap :: "heap \<Rightarrow> nat \<Rightarrow> nat \<Rightarrow> string \<Rightarrow> heap \<times> nat" where
  "merge_with_bundesland_heap h df cities_df df_city_column =
     (case merge_try_heap h df cities_df df_city_column of
        (h', Inr r) \<Rightarrow> (h', r)
      | (h', Inl e) \<Rightarrow> (h', df))"

section \<open>Basic facts\<close>

lemma bind_res_Inl [simp]: "bind_res (l, Inl e) f = (l, Inl e)"
  by (simp add: bind_res_def)

lemma bind_res_lift_Inr [simp]: "bind_res (lift (Inr x)) f = f x"
  by (cases "f x") (simp add: bind_res_def lift_def)

lemma bind_res_lift_Inl [simp]: "bind_res (lift (Inl e)) f = ([], Inl e)"
  by (simp add: bind_res_def lift_def)

lemma bind_res_ret [simp]: "bind_res (ret x) f = f x"
  by (cases "f x") (simp add: bind_res_def ret_def)

lemma bind_res_raise [simp]: "bind_res (raise e) f = ([], Inl e)"
  by (simp add: bind_res_def raise_def)

lemma bind_res_logmsg [simp]: "bind_res (logmsg r) f = (r # fst (f ()), snd (f ()))"
  by (cases "f ()") (simp add: bind_res_def logmsg_def)

lemma bind_res_Inr: "bind_res (l, Inr x) f = (l @ fst (f x), snd (f x))"
  by (cases "f x") (simp add: bind_res_def)

lemma map_of_setitem: "map_of (setitem d k v) = (map_of d)(k \<mapsto> v)"
  by (induction d) (auto simp: fun_eq_iff)

lemma getitem_setitem: "getitem (setitem d k v) k' = (if k' = k then Inr v else getitem d k')"
  by (simp add: getitem_def map_of_setitem)

lemma setitem_setitem: "setitem (setitem d k v) k w = setitem d k w"
  by (induction d) auto

lemma map_of_filter_fst: "map_of (filter (\<lambda>p. fst p \<noteq> k) d) k' = (if k' = k then None else map_of d k')"
  by (induction d) auto

lemma drop_column_setitem:
  "drop_column (setitem d k v) k = Inr (filter (\<lambda>p. fst p \<noteq> k) d)"
proof -
  have "filter (\<lambda>p. fst p \<noteq> k) (setitem d k v) = filter (\<lambda>p. fst p \<noteq> k) d"
    by (induction d) auto
  then show ?thesis by (simp add: drop_column_def map_of_setitem)
qed

lemma filter_setitem_other:
  "k \<noteq> k' \<Longrightarrow> filter (\<lambda>p. fst p \<noteq> k) (setitem d k' v) = setitem (filter (\<lambda>p. fst p \<noteq> k) d) k' v"
  by (induction d) auto

section \<open>The inner and the outer loop\<close>

lemma best_match_loop_inv:
  "best_match_loop c av (bm, bs) = Inr (bm', bs') \<Longrightarrow>
   (bm' = bm \<and> bs' = bs) \<or>
   (\<exists>a \<in> set av. bm' = Some a \<and> notna a \<and> score c a = Inr bs' \<and> bs' > 1 / 2 \<and> bs' > bs)"
proof (induction av arbitrary: bm bs)
  case Nil
  then show ?case by simp
next
  case (Cons a av)
  show ?case
  proof (cases "notna a")
    case False
    with Cons.prems have "best_match_loop c av (bm, bs) = Inr (bm', bs')" by simp
    from Cons.IH[OF this] show ?thesis by auto
  next
    case True
    with Cons.prems obtain sc where sc: "score c a = Inr sc"
      by (cases "score c a") auto
    show ?thesis
    proof (cases "sc > bs \<and> sc > 1 / 2")
      case True
      with Cons.prems \<open>notna a\<close> sc have "best_match_loop c av (Some a, sc) = Inr (bm', bs')" by simp
      from Cons.IH[OF this] True sc \<open>notna a\<close> show ?thesis by auto
    next
      case False
      with Cons.prems \<open>notna a\<close> sc have "best_match_loop c av (bm, bs) = Inr (bm', bs')" by auto
      from Cons.IH[OF this] show ?thesis by auto
    qed
  qed
qed

lemma best_match_loop_success:
  "(\<forall>a \<in> set av. notna a \<longrightarrow> (\<exists>s. score c a = Inr s)) \<Longrightarrow>
   \<exists>st'. best_match_loop c av st = Inr st'"
proof (induction av arbitrary: st)
  case Nil
  then show ?case by simp
next
  case (Cons a av)
  obtain bm bs where st: "st = (bm, bs)" by (cases st)
  from Cons.prems have rest: "\<forall>a \<in> set av. notna a \<longrightarrow> (\<exists>s. score c a = Inr s)" by simp
  show ?case
  proof (cases "notna a")
    case False
    then show ?thesis using Cons.IH[OF rest] st by simp
  next
    case True
    with Cons.prems obtain sc where "score c a = Inr sc" by auto
    then show ?thesis using Cons.IH[OF rest] st True by simp
  qed
qed

lemma best_match_loop_failure:
  "best_match_loop c av st = Inl e \<Longrightarrow> \<exists>a \<in> set av. notna a \<and> score c a = Inl e"
proof (induction av arbitrary: st)
  case Nil
  then show ?case by simp
next
  case (Cons a av)
  obtain bm bs where st: "st = (bm, bs)" by (cases st)
  show ?case
  proof (cases "notna a")
    case False
    with Cons.prems st have "best_match_loop c av (bm, bs) = Inl e" by simp
    from Cons.IH[OF this] show ?thesis by auto
  next
    case True
    show ?thesis
    proof (cases "score c a")
      case (Inl e')
      with Cons.prems st True have "e' = e" by simp
      with Inl True show ?thesis by auto
    next
      case (Inr sc)
      with Cons.prems st True have "\<exists>st'. best_match_loop c av st' = Inl e"
        by (auto split: if_splits)
      then obtain st' where "best_match_loop c av st' = Inl e" ..
      from Cons.IH[OF this] show ?thesis by auto
    qed
  qed
qed

lemma score_Str: "score (Str a) (Str b) = similarity a b"
  by (simp add: score_def)

lemma similarity_Inl: "similarity a b = Inl e \<longleftrightarrow> (a = [] \<and> b = [] \<and> e = ZeroDivisionError)"
  by (auto simp: similarity_def Let_def max_def split: if_splits)

lemma similarity_card:
  "similarity a b =
     (if set a = {} \<and> set b = {} then Inl ZeroDivisionError
      else Inr (of_nat (card (set a \<inter> set b)) / of_nat (max (card (set a)) (card (set b)))))"
proof -
  have "set (filter (\<lambda>c. c \<in> set b) a) = set a \<inter> set b" by auto
  then have n: "length (remdups (filter (\<lambda>c. c \<in> set b) a)) = card (set a \<inter> set b)"
    by (metis length_remdups_card_conv)
  have d: "length (remdups a) = card (set a)" "length (remdups b) = card (set b)"
    by (rule length_remdups_card_conv)+
  have z: "max (card (set a)) (card (set b)) = 0 \<longleftrightarrow> set a = {} \<and> set b = {}"
    by (auto simp: max_def)
  show ?thesis
    unfolding similarity_def Let_def n d using z by simp
qed

lemma fuzzy_loop_length:
  "fuzzy_loop m av clean idxs bl = (lg, Inr bl') \<Longrightarrow> length bl' = length bl"
proof (induction idxs arbitrary: bl lg)
  case Nil
  then show ?case by (simp add: ret_def)
next
  case (Cons idx idxs)
  show ?case
  proof (cases "notna (clean ! idx)")
    case False
    with Cons.prems have "fuzzy_loop m av clean idxs bl = (lg, Inr bl')" by simp
    from Cons.IH[OF this] show ?thesis .
  next
    case True
    show ?thesis
    proof (cases "best_match_loop (clean ! idx) av (None, 0)")
      case (Inl e)
      with Cons.prems True show ?thesis by simp
    next
      case (Inr st)
      obtain bm bs where st: "st = (bm, bs)" by (cases st)
      show ?thesis
      proof (cases "truthy bm")
        case False
        with Cons.prems True Inr st have "fuzzy_loop m av clean idxs bl = (lg, Inr bl')" by simp
        from Cons.IH[OF this] show ?thesis .
      next
        case tr: True
        show ?thesis
        proof (cases "dict_get m (the bm)")
          case (Inl e)
          with Cons.prems True Inr st tr show ?thesis by simp
        next
          case r: (Inr region)
          with Cons.prems True Inr st tr
          have "\<exists>lg'. fuzzy_loop m av clean idxs (bl[idx := region]) = (lg', Inr bl')"
            by (cases "fuzzy_loop m av clean idxs (bl[idx := region])") simp
          then obtain lg' where "fuzzy_loop m av clean idxs (bl[idx := region]) = (lg', Inr bl')" ..
          from Cons.IH[OF this] show ?thesis by simp
        qed
      qed
    qed
  qed
qed

text \<open>One step of the outer loop, as an equation on the result.\<close>

lemma fuzzy_loop_Cons_cases:
  assumes "fuzzy_loop m av clean (idx # idxs) bl = (lg, Inr bl')"
  shows "(\<exists>lg'. fuzzy_loop m av clean idxs bl = (lg', Inr bl') \<and>
            (\<not> notna (clean ! idx) \<or>
             (\<exists>bm bs. best_match_loop (clean ! idx) av (None, 0) = Inr (bm, bs) \<and> \<not> truthy bm))) \<or>
         (\<exists>lg' bm bs region. notna (clean ! idx) \<and>
            best_match_loop (clean ! idx) av (None, 0) = Inr (bm, bs) \<and> truthy bm \<and>
            dict_get m (the bm) = Inr region \<and>
            fuzzy_loop m av clean idxs (bl[idx := region]) = (lg', Inr bl'))"
proof (cases "notna (clean ! idx)")
  case False
  with assms show ?thesis by simp
next
  case True
  show ?thesis
  proof (cases "best_match_loop (clean ! idx) av (None, 0)")
    case (Inl e)
    with assms True show ?thesis by simp
  next
    case (Inr st)
    obtain bm bs where st: "st = (bm, bs)" by (cases st)
    show ?thesis
    proof (cases "truthy bm")
      case False
      with assms True Inr st show ?thesis by simp
    next
      case tr: True
      show ?thesis
      proof (cases "dict_get m (the bm)")
        case (Inl e)
        with assms True Inr st tr show ?thesis by simp
      next
        case r: (Inr region)
        with assms True Inr st tr
        have "\<exists>lg'. fuzzy_loop m av clean idxs (bl[idx := region]) = (lg', Inr bl')"
          by (cases "fuzzy_loop m av clean idxs (bl[idx := region])") simp
        with True Inr st tr r show ?thesis by blast
      qed
    qed
  qed
qed

lemma list_update_differs:
  "xs[k := v] ! i \<noteq> xs ! i \<Longrightarrow> i = k \<and> k < length xs \<and> xs[k := v] ! i = v"
  by (cases "k < length xs") (auto simp: nth_list_update list_update_beyond split: if_splits)

lemma fuzzy_loop_other:
  "fuzzy_loop m av clean idxs bl = (lg, Inr bl') \<Longrightarrow> i \<notin> set idxs \<Longrightarrow> bl' ! i = bl ! i"
proof (induction idxs arbitrary: bl lg)
  case Nil
  then show ?case by (simp add: ret_def)
next
  case (Cons idx idxs)
  from fuzzy_loop_Cons_cases[OF Cons.prems(1)] Cons.prems(2) Cons.IH
  show ?case by (fastforce simp: nth_list_update)
qed

lemma fuzzy_loop_changed:
  "fuzzy_loop m av clean idxs bl = (lg, Inr bl') \<Longrightarrow> bl' ! i \<noteq> bl ! i \<Longrightarrow>
   i \<in> set idxs \<and> notna (clean ! i) \<and>
   (\<exists>a s. best_match_loop (clean ! i) av (None, 0) = Inr (Some a, s) \<and> truthy (Some a) \<and>
          m a = Some (bl' ! i))"
proof (induction idxs arbitrary: bl lg)
  case Nil
  then show ?case by (simp add: ret_def)
next
  case (Cons idx idxs)
  from fuzzy_loop_Cons_cases[OF Cons.prems(1)]
  show ?case
  proof (elim disjE exE conjE)
    fix lg'
    assume "fuzzy_loop m av clean idxs bl = (lg', Inr bl')" "\<not> notna (clean ! idx)"
    from Cons.IH[OF this(1) Cons.prems(2)] show ?thesis by auto
  next
    fix lg' bm bs
    assume "fuzzy_loop m av clean idxs bl = (lg', Inr bl')"
    from Cons.IH[OF this(1) Cons.prems(2)] show ?thesis by auto
  next
    fix lg' bm bs region
    assume h: "notna (clean ! idx)" "best_match_loop (clean ! idx) av (None, 0) = Inr (bm, bs)"
      "truthy bm" "dict_get m (the bm) = Inr region"
      "fuzzy_loop m av clean idxs (bl[idx := region]) = (lg', Inr bl')"
    show ?thesis
    proof (cases "bl' ! i = bl[idx := region] ! i")
      case False
      from Cons.IH[OF h(5) False] show ?thesis by auto
    next
      case True
      with Cons.prems(2) have "bl[idx := region] ! i \<noteq> bl ! i" by simp
      from list_update_differs[OF this] True
      have i: "i = idx" "idx < length bl" "bl' ! i = region" by auto
      from h(3) obtain a where a: "bm = Some a" by (cases bm) auto
      from h(4) a have "m a = Some region"
        by (auto simp: dict_get_def split: option.splits)
      with i h a show ?thesis by auto
    qed
  qed
qed

lemma fuzzy_loop_success:
  "(\<forall>idx \<in> set idxs. notna (clean ! idx) \<longrightarrow>
      (\<exists>bm s. best_match_loop (clean ! idx) av (None, 0) = Inr (bm, s) \<and>
              (truthy bm \<longrightarrow> m (the bm) \<noteq> None))) \<Longrightarrow>
   \<exists>lg bl'. fuzzy_loop m av clean idxs bl = (lg, Inr bl')"
proof (induction idxs arbitrary: bl)
  case Nil
  then show ?case by (simp add: ret_def)
next
  case (Cons idx idxs)
  from Cons.prems have rest: "\<forall>idx \<in> set idxs. notna (clean ! idx) \<longrightarrow>
      (\<exists>bm s. best_match_loop (clean ! idx) av (None, 0) = Inr (bm, s) \<and>
              (truthy bm \<longrightarrow> m (the bm) \<noteq> None))" by simp
  show ?case
  proof (cases "notna (clean ! idx)")
    case False
    then show ?thesis using Cons.IH[OF rest] by simp
  next
    case True
    with Cons.prems obtain bm s where b: "best_match_loop (clean ! idx) av (None, 0) = Inr (bm, s)"
      "truthy bm \<longrightarrow> m (the bm) \<noteq> None" by auto
    show ?thesis
    proof (cases "truthy bm")
      case False
      then show ?thesis using Cons.IH[OF rest] True b by simp
    next
      case tr: True
      with b obtain region where r: "m (the bm) = Some region" by auto
      from Cons.IH[OF rest, of "bl[idx := region]"]
      obtain lg bl' where "fuzzy_loop m av clean idxs (bl[idx := region]) = (lg, Inr bl')" by blast
      then show ?thesis using True b tr r by (simp add: dict_get_def)
    qed
  qed
qed

lemma snd_bind_res:
  "snd (bind_res m f) = (case snd m of Inl e \<Rightarrow> Inl e | Inr x \<Rightarrow> snd (f x))"
  by (cases m; cases "snd m") (auto simp: bind_res_def split: prod.splits)

lemma clean_name_neq_bundesland: "col @ ''_clean'' \<noteq> ''bundesland''"
proof
  assume "col @ ''_clean'' = ''bundesland''"
  then have "last (col @ ''_clean'') = last ''bundesland''" by simp
  then show False by simp
qed

lemma clean_name_neq_self: "col @ ''_clean'' \<noteq> col"
  by simp

lemma wf_frame_getitem:
  "wf_frame d \<Longrightarrow> getitem d k = Inr v \<Longrightarrow> length v = df_len d"
proof -
  assume wf: "wf_frame d" and g: "getitem d k = Inr v"
  from g have "map_of d k = Some v" by (auto simp: getitem_def split: option.splits)
  then have "(k, v) \<in> set d" by (rule map_of_SomeD)
  with wf show ?thesis by (auto simp: wf_frame_def list_all_iff)
qed

lemma df_len_pos: "\<not> df_empty d \<Longrightarrow> 0 < df_len d"
  by (auto simp: df_empty_def df_len_def split: list.splits)

lemma df_len_setitem_filter:
  assumes "wf_frame d" "length v = df_len d"
  shows "df_len (setitem (filter (\<lambda>p. fst p \<noteq> k) d) k' v) = df_len d"
proof (cases "filter (\<lambda>p. fst p \<noteq> k) d")
  case Nil
  then show ?thesis using assms by (simp add: df_len_def)
next
  case (Cons p ps)
  then have "p \<in> set (filter (\<lambda>p. fst p \<noteq> k) d)" by simp
  then have "p \<in> set d" by simp
  with assms(1) have "length (snd p) = df_len d" by (auto simp: wf_frame_def list_all_iff)
  with Cons assms(2) show ?thesis by (cases p) (auto simp: df_len_def)
qed

lemma getitem_filter_other:
  "k' \<noteq> k \<Longrightarrow> getitem (filter (\<lambda>p. fst p \<noteq> k) d) k' = getitem d k'"
  by (simp add: getitem_def map_of_filter_fst)

lemma report_snd:
  assumes wf: "wf_frame df" and ne: "\<not> df_empty df"
    and len: "length bl' = df_len df"
    and col: "getitem df col = Inr city_col"
  shows "snd (report (setitem (setitem df (col @ ''_clean'') clean) ''bundesland'' bl') col)
         = Inr (setitem (filter (\<lambda>p. fst p \<noteq> col @ ''_clean'') df) ''bundesland'' bl')"
proof -
  let ?cc = "col @ ''_clean''"
  let ?df4 = "setitem (filter (\<lambda>p. fst p \<noteq> ?cc) df) ''bundesland'' bl'"
  have nb: "?cc \<noteq> ''bundesland''" "''bundesland'' \<noteq> ?cc"
    using clean_name_neq_bundesland[of col] by auto
  have present: "map_of (setitem (setitem df ?cc clean) ''bundesland'' bl') ?cc \<noteq> None"
    using nb by (simp add: map_of_setitem)
  have filt: "filter (\<lambda>p. fst p \<noteq> ?cc) (setitem (setitem df ?cc clean) ''bundesland'' bl') = ?df4"
  proof -
    have "filter (\<lambda>p. fst p \<noteq> ?cc) (setitem df ?cc clean) = filter (\<lambda>p. fst p \<noteq> ?cc) df"
      by (induction df) auto
    then show ?thesis using nb by (simp add: filter_setitem_other)
  qed
  have drop: "drop_column (setitem (setitem df ?cc clean) ''bundesland'' bl') ?cc = Inr ?df4"
    using present filt by (simp add: drop_column_def)
  have total: "df_len ?df4 \<noteq> 0"
    using df_len_setitem_filter[OF wf len] df_len_pos[OF ne] by simp
  have g1: "getitem ?df4 ''bundesland'' = Inr bl'" by (simp add: getitem_setitem)
  have g2: "\<exists>cc. getitem ?df4 col = Inr cc"
    using col by (auto simp: getitem_setitem getitem_filter_other)
  then obtain cc where g2': "getitem ?df4 col = Inr cc" ..
  show ?thesis
    unfolding report_def drop
    using total g1 g2' by (simp add: Let_def snd_bind_res ret_def logmsg_def)
qed

lemma fuzzy_pass_snd:
  assumes "df2 = setitem (setitem df (col @ ''_clean'') clean) ''bundesland'' bl"
  shows "snd (fuzzy_pass m sc df2 col)
         = (case snd (fuzzy_loop m (unique sc) clean (isna_index bl) bl) of
              Inl e \<Rightarrow> Inl e
            | Inr bl' \<Rightarrow> Inr (setitem (setitem df (col @ ''_clean'') clean) ''bundesland'' bl'))"
proof -
  have nb: "''bundesland'' \<noteq> col @ ''_clean''" "col @ ''_clean'' \<noteq> ''bundesland''"
    using clean_name_neq_bundesland[of col] by auto
  have g1: "getitem df2 ''bundesland'' = Inr bl" using assms by (simp add: getitem_setitem)
  have g2: "getitem df2 (col @ ''_clean'') = Inr clean" using assms nb by (simp add: getitem_setitem)
  show ?thesis
  proof (cases "isna_index bl = []")
    case True
    then show ?thesis unfolding fuzzy_pass_def g1 using assms
      by (simp add: ret_def setitem_setitem)
  next
    case False
    then show ?thesis unfolding fuzzy_pass_def g1 using assms g2
      by (simp add: Let_def snd_bind_res ret_def setitem_setitem split: sum.splits)
  qed
qed

text \<open>The result of the try block, when the columns are there.\<close>

lemma merge_try_snd:
  assumes ne: "\<not> df_empty df" "\<not> df_empty cities_df"
    and wf: "wf_frame df"
    and col: "getitem df col = Inr city_col" "list_ex is_Str city_col"
    and stadt: "getitem cities_df ''Stadt'' = Inr stadt" "list_ex is_Str stadt"
    and bund: "getitem cities_df ''Bundesland'' = Inr bund"
  shows "snd (merge_try df cities_df col)
         = (case snd (fuzzy_loop (dict_zip (map clean_cell stadt) bund)
                        (unique (map clean_cell stadt)) (map clean_cell city_col)
                        (isna_index (series_map (dict_zip (map clean_cell stadt) bund) (map clean_cell city_col)))
                        (series_map (dict_zip (map clean_cell stadt) bund) (map clean_cell city_col))) of
              Inl e \<Rightarrow> Inl e
            | Inr bl' \<Rightarrow> Inr (setitem (filter (\<lambda>p. fst p \<noteq> col @ ''_clean'') df) ''bundesland'' bl'))"
proof -
  let ?m = "dict_zip (map clean_cell stadt) bund"
  let ?clean = "map clean_cell city_col"
  let ?bl = "series_map ?m ?clean"
  let ?df2 = "setitem (setitem df (col @ ''_clean'') ?clean) ''bundesland'' ?bl"
  have lenbl: "length ?bl = df_len df"
    using wf_frame_getitem[OF wf col(1)] by (simp add: series_map_def)
  have unf: "merge_try df cities_df col
      = bind_res (fuzzy_pass ?m (map clean_cell stadt) ?df2 col) (\<lambda>df3. report df3 col)"
    unfolding merge_try_def using ne col stadt bund
    by (simp add: str_strip_lower_def getitem_setitem Let_def)
  show ?thesis
  proof (cases "snd (fuzzy_loop ?m (unique (map clean_cell stadt)) ?clean (isna_index ?bl) ?bl)")
    case (Inl e)
    then show ?thesis unfolding unf by (simp add: snd_bind_res fuzzy_pass_snd[OF refl])
  next
    case (Inr bl')
    then obtain lg where "fuzzy_loop ?m (unique (map clean_cell stadt)) ?clean (isna_index ?bl) ?bl = (lg, Inr bl')"
      by (cases "fuzzy_loop ?m (unique (map clean_cell stadt)) ?clean (isna_index ?bl) ?bl") simp
    from fuzzy_loop_length[OF this] lenbl have "length bl' = df_len df" by simp
    from report_snd[OF wf ne(1) this col(1)] Inr
    show ?thesis unfolding unf by (simp add: snd_bind_res fuzzy_pass_snd[OF refl])
  qed
qed

section \<open>The mapping\<close>

lemma fold_upd_map_of:
  "fold (\<lambda>(k, v) m. m(k \<mapsto> v)) xs m0 = m0 ++ map_of (rev xs)"
proof (induction xs arbitrary: m0)
  case Nil
  then show ?case by simp
next
  case (Cons x xs)
  obtain k v where x: "x = (k, v)" by (cases x)
  let ?F = "\<lambda>(k, v) m. m(k \<mapsto> v)"
  have a: "m0(k \<mapsto> v) ++ map_of (rev xs) = m0 ++ (map_of [(k, v)] ++ map_of (rev xs))"
    by (simp add: fun_eq_iff map_add_def split: option.splits)
  have b: "map_of (rev (x # xs)) = map_of [(k, v)] ++ map_of (rev xs)"
    using x by (simp only: rev.simps map_of_append)
  have c: "?F x m0 = m0(k \<mapsto> v)" using x by simp
  have "fold ?F (x # xs) m0 = fold ?F xs (?F x m0)" by simp
  also have "\<dots> = m0(k \<mapsto> v) ++ map_of (rev xs)"
    unfolding c by (rule Cons.IH)
  finally show ?case unfolding a b .
qed

lemma dict_zip_map_of: "dict_zip ks vs = map_of (rev (zip ks vs))"
  by (simp add: dict_zip_def fold_upd_map_of)

lemma dict_zip_value: "dict_zip ks vs k = Some v \<Longrightarrow> v \<in> set vs"
proof -
  assume "dict_zip ks vs k = Some v"
  then have "(k, v) \<in> set (rev (zip ks vs))"
    unfolding dict_zip_map_of by (rule map_of_SomeD)
  then show ?thesis by (auto dest: set_zip_rightD)
qed

lemma dict_zip_dom:
  "length ks \<le> length vs \<Longrightarrow> k \<in> set ks \<Longrightarrow> dict_zip ks vs k \<noteq> None"
proof -
  assume len: "length ks \<le> length vs" and k: "k \<in> set ks"
  then obtain i where i: "i < length ks" "ks ! i = k" by (auto simp: in_set_conv_nth)
  with len have "(k, vs ! i) \<in> set (zip ks vs)" by (auto simp: set_zip)
  then have "k \<in> fst ` set (rev (zip ks vs))" by force
  then show ?thesis unfolding dict_zip_map_of by (simp add: map_of_eq_None_iff)
qed

lemma dict_zip_None: "k \<notin> set ks \<Longrightarrow> dict_zip ks vs k = None"
  unfolding dict_zip_map_of by (auto simp: map_of_eq_None_iff dest: set_zip_leftD)

lemma fold_upd_last:
  "j < length ks \<Longrightarrow> j < length vs \<Longrightarrow>
   (\<forall>j'. j < j' \<and> j' < length ks \<and> j' < length vs \<longrightarrow> ks ! j' \<noteq> ks ! j) \<Longrightarrow>
   fold (\<lambda>(k, v) m. m(k \<mapsto> v)) (zip ks vs) m0 (ks ! j) = Some (vs ! j)"
proof (induction ks arbitrary: vs j m0)
  case Nil
  then show ?case by simp
next
  case (Cons k ks)
  from Cons.prems(2) obtain v vs' where vs: "vs = v # vs'" by (cases vs) auto
  show ?case
  proof (cases j)
    case 0
    have "k \<notin> fst ` set (zip ks vs')"
    proof
      assume "k \<in> fst ` set (zip ks vs')"
      then obtain i where "i < length ks" "i < length vs'" "ks ! i = k"
        by (auto simp: set_zip)
      with Cons.prems(3)[rule_format, of "Suc i"] 0 vs show False by simp
    qed
    then have n: "map_of (rev (zip ks vs')) k = None" by (simp add: map_of_eq_None_iff)
    let ?F = "\<lambda>(k, v) m. m(k \<mapsto> v)"
    have c: "?F (k, v) m0 = m0(k \<mapsto> v)" by simp
    have "fold ?F (zip (k # ks) vs) m0 = fold ?F (zip ks vs') (?F (k, v) m0)"
      using vs by simp
    also have "\<dots> = m0(k \<mapsto> v) ++ map_of (rev (zip ks vs'))"
      unfolding c by (rule fold_upd_map_of)
    finally have "fold ?F (zip (k # ks) vs) m0 k = (m0(k \<mapsto> v) ++ map_of (rev (zip ks vs'))) k"
      by (rule arg_cong[where f = "\<lambda>m. m k"])
    also have "\<dots> = Some v" using n by (simp add: map_add_def)
    finally have "fold ?F (zip (k # ks) vs) m0 k = Some v" .
    moreover have "(k # ks) ! j = k" "vs ! j = v" using 0 vs by simp_all
    ultimately show ?thesis by (simp only:)
  next
    case (Suc j0)
    have later: "\<forall>j'. j0 < j' \<and> j' < length ks \<and> j' < length vs' \<longrightarrow> ks ! j' \<noteq> ks ! j0"
    proof (intro allI impI)
      fix j' assume "j0 < j' \<and> j' < length ks \<and> j' < length vs'"
      with Cons.prems(3)[rule_format, of "Suc j'"] Suc vs show "ks ! j' \<noteq> ks ! j0" by simp
    qed
    from Cons.prems(1,2) Suc vs have "j0 < length ks" "j0 < length vs'" by simp_all
    from Cons.IH[OF this later, of "m0(k \<mapsto> v)"]
    have "fold (\<lambda>(k, v) m. m(k \<mapsto> v)) (zip ks vs') (m0(k \<mapsto> v)) (ks ! j0) = Some (vs' ! j0)" .
    moreover have "(\<lambda>(k, v) m. m(k \<mapsto> v)) (k, v) m0 = m0(k \<mapsto> v)" by simp
    ultimately show ?thesis using Suc vs by (simp del: fun_upd_apply)
  qed
qed

lemma dict_zip_last:
  "j < length ks \<Longrightarrow> j < length vs \<Longrightarrow>
   (\<forall>j'. j < j' \<and> j' < length ks \<and> j' < length vs \<longrightarrow> ks ! j' \<noteq> ks ! j) \<Longrightarrow>
   dict_zip ks vs (ks ! j) = Some (vs ! j)"
  unfolding dict_zip_def by (rule fold_upd_last)

section \<open>Distinct values in order of first appearance\<close>

lemma unique_snoc:
  "unique (xs @ [x]) = (if x \<in> set (unique xs) then unique xs else unique xs @ [x])"
  by (simp add: unique_def)

lemma unique_Nil [simp]: "unique [] = []"
  by (simp add: unique_def)

lemma set_unique [simp]: "set (unique xs) = set xs"
  by (induction xs rule: rev_induct) (auto simp: unique_snoc)

lemma distinct_unique [simp]: "distinct (unique xs)"
  by (induction xs rule: rev_induct) (auto simp: unique_snoc)

lemma unique_first_occurrence:
  "a \<notin> set p \<Longrightarrow> \<exists>q'. unique (p @ a # q) = unique p @ a # q'"
proof (induction q rule: rev_induct)
  case Nil
  then show ?case by (simp add: unique_snoc)
next
  case (snoc x q)
  then obtain q' where q': "unique (p @ a # q) = unique p @ a # q'" by blast
  have "unique (p @ a # q @ [x]) = unique ((p @ a # q) @ [x])" by simp
  also have "\<dots> = (if x \<in> set (p @ a # q) then unique (p @ a # q) else unique (p @ a # q) @ [x])"
    by (simp only: unique_snoc set_unique)
  finally show ?case using q' by auto
qed

section \<open>The winner of the inner loop\<close>

lemma best_match_loop_order:
  "best_match_loop c av (bm, bs) = Inr (bm', bs') \<Longrightarrow>
   (bm' = bm \<and> bs' = bs \<and>
      (\<forall>b \<in> set av. notna b \<longrightarrow> (\<exists>t. score c b = Inr t \<and> (t \<le> bs \<or> t \<le> 1 / 2)))) \<or>
   (\<exists>pre a post. av = pre @ a # post \<and> bm' = Some a \<and> notna a \<and> score c a = Inr bs' \<and>
      bs' > 1 / 2 \<and> bs' > bs \<and>
      (\<forall>b \<in> set pre. notna b \<longrightarrow> (\<exists>t. score c b = Inr t \<and> t < bs')) \<and>
      (\<forall>b \<in> set post. notna b \<longrightarrow> (\<exists>t. score c b = Inr t \<and> t \<le> bs')))"
proof (induction av arbitrary: bm bs)
  case Nil
  then show ?case by simp
next
  case (Cons a0 av)
  show ?case
  proof (cases "notna a0")
    case False
    with Cons.prems have r: "best_match_loop c av (bm, bs) = Inr (bm', bs')" by simp
    from Cons.IH[OF r] show ?thesis
    proof (elim disjE exE conjE)
      assume "bm' = bm" "bs' = bs"
        "\<forall>b \<in> set av. notna b \<longrightarrow> (\<exists>t. score c b = Inr t \<and> (t \<le> bs \<or> t \<le> 1 / 2))"
      with False show ?thesis by auto
    next
      fix pre a post
      assume h: "av = pre @ a # post" "bm' = Some a" "notna a" "score c a = Inr bs'"
        "bs' > 1 / 2" "bs' > bs"
        "\<forall>b \<in> set pre. notna b \<longrightarrow> (\<exists>t. score c b = Inr t \<and> t < bs')"
        "\<forall>b \<in> set post. notna b \<longrightarrow> (\<exists>t. score c b = Inr t \<and> t \<le> bs')"
      have "a0 # av = (a0 # pre) @ a # post" using h(1) by simp
      moreover have "\<forall>b \<in> set (a0 # pre). notna b \<longrightarrow> (\<exists>t. score c b = Inr t \<and> t < bs')"
        using h(7) False by auto
      ultimately show ?thesis using h by blast
    qed
  next
    case True
    with Cons.prems obtain sc where sc: "score c a0 = Inr sc"
      by (cases "score c a0") auto
    show ?thesis
    proof (cases "sc > bs \<and> sc > 1 / 2")
      case better: True
      with Cons.prems True sc
      have r: "best_match_loop c av (Some a0, sc) = Inr (bm', bs')" by simp
      from Cons.IH[OF r] show ?thesis
      proof (elim disjE exE conjE)
        assume h: "bm' = Some a0" "bs' = sc"
          "\<forall>b \<in> set av. notna b \<longrightarrow> (\<exists>t. score c b = Inr t \<and> (t \<le> sc \<or> t \<le> 1 / 2))"
        have "\<forall>b \<in> set av. notna b \<longrightarrow> (\<exists>t. score c b = Inr t \<and> t \<le> bs')"
          using h(2,3) better by fastforce
        moreover have "a0 # av = [] @ a0 # av" by simp
        ultimately show ?thesis using h(1,2) True sc better
          by (intro disjI2 exI[of _ "[]"] exI[of _ a0] exI[of _ av]) simp
      next
        fix pre a post
        assume h: "av = pre @ a # post" "bm' = Some a" "notna a" "score c a = Inr bs'"
          "bs' > 1 / 2" "bs' > sc"
          "\<forall>b \<in> set pre. notna b \<longrightarrow> (\<exists>t. score c b = Inr t \<and> t < bs')"
          "\<forall>b \<in> set post. notna b \<longrightarrow> (\<exists>t. score c b = Inr t \<and> t \<le> bs')"
        have "a0 # av = (a0 # pre) @ a # post" using h(1) by simp
        moreover have "\<forall>b \<in> set (a0 # pre). notna b \<longrightarrow> (\<exists>t. score c b = Inr t \<and> t < bs')"
          using h(6,7) sc by auto
        moreover have "bs' > bs" using h(6) better by simp
        ultimately show ?thesis using h by blast
      qed
    next
      case worse: False
      with Cons.prems True sc
      have r: "best_match_loop c av (bm, bs) = Inr (bm', bs')" by auto
      from Cons.IH[OF r] show ?thesis
      proof (elim disjE exE conjE)
        assume h: "bm' = bm" "bs' = bs"
          "\<forall>b \<in> set av. notna b \<longrightarrow> (\<exists>t. score c b = Inr t \<and> (t \<le> bs \<or> t \<le> 1 / 2))"
        have "\<exists>t. score c a0 = Inr t \<and> (t \<le> bs \<or> t \<le> 1 / 2)" using sc worse by auto
        with h show ?thesis by auto
      next
        fix pre a post
        assume h: "av = pre @ a # post" "bm' = Some a" "notna a" "score c a = Inr bs'"
          "bs' > 1 / 2" "bs' > bs"
          "\<forall>b \<in> set pre. notna b \<longrightarrow> (\<exists>t. score c b = Inr t \<and> t < bs')"
          "\<forall>b \<in> set post. notna b \<longrightarrow> (\<exists>t. score c b = Inr t \<and> t \<le> bs')"
        have "a0 # av = (a0 # pre) @ a # post" using h(1) by simp
        moreover have "sc < bs'" using worse h(5,6) by auto
        then have "\<forall>b \<in> set (a0 # pre). notna b \<longrightarrow> (\<exists>t. score c b = Inr t \<and> t < bs')"
          using h(7) sc by auto
        ultimately show ?thesis using h by blast
      qed
    qed
  qed
qed

section \<open>The try block as a whole\<close>

lemma clean_cell_cases: "clean_cell c = NaN \<or> (\<exists>s. clean_cell c = Str s)"
  by (cases c) auto

lemma notna_clean_cell: "notna (clean_cell c) \<Longrightarrow> \<exists>s. clean_cell c = Str s"
  using clean_cell_cases[of c] by (auto simp: notna_def)

lemma similarity_empty_left: "b \<noteq> [] \<Longrightarrow> similarity [] b = Inr 0"
  by (auto simp: similarity_def Let_def)

lemma score_clean_defined:
  assumes "notna (clean_cell x)" "notna (clean_cell y)"
    and "clean_cell x = Str [] \<longrightarrow> clean_cell y \<noteq> Str []"
  shows "\<exists>t. score (clean_cell x) (clean_cell y) = Inr t"
proof -
  from notna_clean_cell[OF assms(1)] obtain a where a: "clean_cell x = Str a" ..
  from notna_clean_cell[OF assms(2)] obtain b where b: "clean_cell y = Str b" ..
  from assms(3) a b have "\<not> (a = [] \<and> b = [])" by auto
  then have "\<exists>t. similarity a b = Inr t"
    by (cases "similarity a b") (auto simp: similarity_Inl)
  then show ?thesis using a b by (simp add: score_Str)
qed

lemma merge_try_attr_city:
  "\<not> df_empty df \<Longrightarrow> \<not> df_empty cities_df \<Longrightarrow> getitem df col = Inr city_col \<Longrightarrow>
   \<not> list_ex is_Str city_col \<Longrightarrow> merge_try df cities_df col = ([], Inl AttributeError)"
  by (simp add: merge_try_def str_strip_lower_def)

lemma merge_try_attr_stadt:
  "\<not> df_empty df \<Longrightarrow> \<not> df_empty cities_df \<Longrightarrow> getitem df col = Inr city_col \<Longrightarrow>
   list_ex is_Str city_col \<Longrightarrow> getitem cities_df ''Stadt'' = Inr stadt \<Longrightarrow>
   \<not> list_ex is_Str stadt \<Longrightarrow> merge_try df cities_df col = ([], Inl AttributeError)"
  by (simp add: merge_try_def str_strip_lower_def Let_def)

lemma merge_try_Inr:
  fixes df cities_df col city_col stadt bund
  defines "sc \<equiv> map clean_cell stadt"
  defines "clean \<equiv> map clean_cell city_col"
  defines "m \<equiv> dict_zip sc bund"
  defines "bl0 \<equiv> series_map m clean"
  assumes ne: "\<not> df_empty df" "\<not> df_empty cities_df"
    and wf: "wf_frame df"
    and col: "getitem df col = Inr city_col"
    and stadt: "getitem cities_df ''Stadt'' = Inr stadt"
    and bund: "getitem cities_df ''Bundesland'' = Inr bund"
    and ok: "snd (merge_try df cities_df col) = Inr r"
  shows "\<exists>lg bl'. fuzzy_loop m (unique sc) clean (isna_index bl0) bl0 = (lg, Inr bl') \<and>
           r = setitem (filter (\<lambda>p. fst p \<noteq> col @ ''_clean'') df) ''bundesland'' bl' \<and>
           getitem r ''bundesland'' = Inr bl' \<and> length bl' = length city_col"
proof -
  have s1: "list_ex is_Str city_col"
    using merge_try_attr_city[OF ne col] ok by (cases "list_ex is_Str city_col") auto
  have s2: "list_ex is_Str stadt"
    using merge_try_attr_stadt[OF ne col s1 stadt] ok by (cases "list_ex is_Str stadt") auto
  note u = merge_try_snd[OF ne wf col s1 stadt s2 bund]
  obtain lg v where fl: "fuzzy_loop m (unique sc) clean (isna_index bl0) bl0 = (lg, v)"
    by (cases "fuzzy_loop m (unique sc) clean (isna_index bl0) bl0")
  show ?thesis
  proof (cases v)
    case (Inl e)
    with u ok fl show ?thesis unfolding sc_def clean_def m_def bl0_def by simp
  next
    case (Inr bl')
    with u ok fl have r: "r = setitem (filter (\<lambda>p. fst p \<noteq> col @ ''_clean'') df) ''bundesland'' bl'"
      unfolding sc_def clean_def m_def bl0_def by simp
    from fuzzy_loop_length fl Inr have "length bl' = length bl0" by blast
    then have "length bl' = length city_col" by (simp add: bl0_def clean_def series_map_def)
    with r fl Inr show ?thesis by (simp add: getitem_setitem)
  qed
qed

lemma merge_try_success:
  fixes df cities_df col city_col stadt bund
  defines "sc \<equiv> map clean_cell stadt"
  defines "clean \<equiv> map clean_cell city_col"
  defines "m \<equiv> dict_zip sc bund"
  defines "bl0 \<equiv> series_map m clean"
  assumes ne: "\<not> df_empty df" "\<not> df_empty cities_df"
    and wf: "wf_frame df"
    and col: "getitem df col = Inr city_col" "list_ex is_Str city_col"
    and stadt: "getitem cities_df ''Stadt'' = Inr stadt" "list_ex is_Str stadt"
    and bund: "getitem cities_df ''Bundesland'' = Inr bund"
    and len: "length stadt \<le> length bund"
    and ok: "\<forall>i < length city_col. bl0 ! i = NaN \<and> clean ! i = Str [] \<longrightarrow> Str [] \<notin> set sc"
  shows "\<exists>r. snd (merge_try df cities_df col) = Inr r"
proof -
  have rows: "\<forall>idx \<in> set (isna_index bl0). notna (clean ! idx) \<longrightarrow>
      (\<exists>bm s. best_match_loop (clean ! idx) (unique sc) (None, 0) = Inr (bm, s) \<and>
              (truthy bm \<longrightarrow> m (the bm) \<noteq> None))"
  proof (intro ballI impI)
    fix idx assume idx: "idx \<in> set (isna_index bl0)" and nn: "notna (clean ! idx)"
    from idx have i: "idx < length city_col" "bl0 ! idx = NaN"
      by (auto simp: isna_index_def bl0_def clean_def series_map_def notna_def)
    then have cl: "clean ! idx = clean_cell (city_col ! idx)" by (simp add: clean_def)
    have "\<forall>a \<in> set (unique sc). notna a \<longrightarrow> (\<exists>s. score (clean ! idx) a = Inr s)"
    proof (intro ballI impI)
      fix a assume "a \<in> set (unique sc)" "notna a"
      then obtain y where y: "a = clean_cell y" "a \<in> set sc" by (auto simp: sc_def)
      have "clean_cell (city_col ! idx) = Str [] \<longrightarrow> clean_cell y \<noteq> Str []"
        using ok i cl y by auto
      from score_clean_defined[OF _ _ this] nn \<open>notna a\<close> cl y
      show "\<exists>s. score (clean ! idx) a = Inr s" by simp
    qed
    from best_match_loop_success[OF this]
    obtain st where st: "best_match_loop (clean ! idx) (unique sc) (None, 0) = Inr st" by blast
    obtain bm s where bms: "st = (bm, s)" by (cases st)
    have "truthy bm \<longrightarrow> m (the bm) \<noteq> None"
    proof
      assume "truthy bm"
      with best_match_loop_inv[OF st[unfolded bms]] obtain a where "bm = Some a" "a \<in> set sc"
        by auto
      then show "m (the bm) \<noteq> None"
        using dict_zip_dom[of sc bund a] len by (simp add: m_def sc_def)
    qed
    with st bms show "\<exists>bm s. best_match_loop (clean ! idx) (unique sc) (None, 0) = Inr (bm, s) \<and>
              (truthy bm \<longrightarrow> m (the bm) \<noteq> None)" by blast
  qed
  from fuzzy_loop_success[OF rows, of bl0] obtain lg bl' where
    "fuzzy_loop m (unique sc) clean (isna_index bl0) bl0 = (lg, Inr bl')" by blast
  then show ?thesis
    using merge_try_snd[OF ne wf col stadt bund]
    unfolding sc_def clean_def m_def bl0_def by simp
qed

text \<open>With a region in every reference row, the try block completes.\<close>

lemma merge_try_success_regions:
  assumes ne: "\<not> df_empty df" "\<not> df_empty cities_df"
    and wf: "wf_frame df"
    and col: "getitem df col = Inr city_col" "list_ex is_Str city_col"
    and stadt: "getitem cities_df ''Stadt'' = Inr stadt" "list_ex is_Str stadt"
    and bund: "getitem cities_df ''Bundesland'' = Inr bund"
    and len: "length stadt \<le> length bund"
    and regions: "\<forall>v \<in> set bund. notna v"
  shows "\<exists>r. snd (merge_try df cities_df col) = Inr r"
proof (rule merge_try_success[OF ne wf col stadt bund len], intro allI impI)
  fix i
  let ?sc = "map clean_cell stadt"
  let ?m = "dict_zip ?sc bund"
  assume i: "i < length city_col"
    and h: "series_map ?m (map clean_cell city_col) ! i = NaN \<and> map clean_cell city_col ! i = Str []"
  show "Str [] \<notin> set ?sc"
  proof
    assume "Str [] \<in> set ?sc"
    from dict_zip_dom[OF _ this, of bund] len obtain v where v: "?m (Str []) = Some v" by auto
    from dict_zip_value[OF v] regions have "v \<noteq> NaN" by (auto simp: notna_def)
    moreover from h i have e1: "clean_cell (city_col ! i) = Str []" by simp
    moreover from h have e2: "series_map ?m (map clean_cell city_col) ! i = NaN" by simp
    moreover have "series_map ?m (map clean_cell city_col) ! i = v"
      using i v e1 by (simp add: series_map_def)
    ultimately show False by simp
  qed
qed

text \<open>A row that the exact pass has matched keeps its region.\<close>

lemma merge_try_exact_row:
  fixes df cities_df col city_col stadt bund
  defines "m \<equiv> dict_zip (map clean_cell stadt) bund"
  assumes ne: "\<not> df_empty df" "\<not> df_empty cities_df"
    and wf: "wf_frame df"
    and col: "getitem df col = Inr city_col"
    and stadt: "getitem cities_df ''Stadt'' = Inr stadt"
    and bund: "getitem cities_df ''Bundesland'' = Inr bund"
    and ok: "snd (merge_try df cities_df col) = Inr r"
    and i: "i < length city_col"
    and hit: "m (clean_cell (city_col ! i)) = Some v" "notna v"
  shows "\<exists>bl. getitem r ''bundesland'' = Inr bl \<and> bl ! i = v \<and>
           i \<notin> set (isna_index (series_map m (map clean_cell city_col)))"
proof -
  let ?bl0 = "series_map m (map clean_cell city_col)"
  from merge_try_Inr[OF ne wf col stadt bund ok] obtain lg bl' where
    fl: "fuzzy_loop m (unique (map clean_cell stadt)) (map clean_cell city_col) (isna_index ?bl0) ?bl0 = (lg, Inr bl')"
    and g: "getitem r ''bundesland'' = Inr bl'"
    unfolding m_def by blast
  have b0: "?bl0 ! i = v" using i hit by (simp add: series_map_def)
  then have "i \<notin> set (isna_index ?bl0)" using hit(2) by (simp add: isna_index_def)
  with fuzzy_loop_other[OF fl this] b0 g show ?thesis by simp
qed

lemma merge_with_bundesland_snd_Inr:
  "snd (merge_try df cities_df col) = Inr r \<Longrightarrow>
   snd (merge_with_bundesland df cities_df col) = Inr r"
  by (cases "merge_try df cities_df col") (auto simp: merge_with_bundesland_def)

lemma list_ex_is_Str_nth: "i < length xs \<Longrightarrow> xs ! i = Str s \<Longrightarrow> list_ex is_Str xs"
  by (force simp: list_ex_iff in_set_conv_nth)

lemma wf_frame_columns_length:
  "wf_frame d \<Longrightarrow> getitem d k = Inr v \<Longrightarrow> getitem d k' = Inr v' \<Longrightarrow> length v = length v'"
  using wf_frame_getitem by metis

lemma best_match_loop_empty_name:
  "\<forall>a \<in> set av. a = NaN \<or> (\<exists>b. a = Str b \<and> b \<noteq> []) \<Longrightarrow>
   best_match_loop (Str []) av (None, 0) = Inr (None, 0)"
proof (induction av)
  case Nil
  then show ?case by simp
next
  case (Cons a av)
  then have ih: "best_match_loop (Str []) av (None, 0) = Inr (None, 0)" by simp
  from Cons.prems have "a = NaN \<or> (\<exists>b. a = Str b \<and> b \<noteq> [])" by simp
  then show ?case
  proof
    assume "a = NaN"
    then show ?thesis using ih by (simp add: notna_def)
  next
    assume "\<exists>b. a = Str b \<and> b \<noteq> []"
    then obtain b where b: "a = Str b" "b \<noteq> []" by blast
    then have "score (Str []) a = Inr 0" by (simp add: score_Str similarity_empty_left)
    then show ?thesis using ih b by (simp add: notna_def)
  qed
qed

lemma best_match_loop_winner_first:
  assumes "best_match_loop c (unique ks) (None, 0) = Inr (Some a, s)"
  shows "\<exists>j < length ks. ks ! j = a \<and> notna a \<and> score c a = Inr s \<and> s > 1 / 2 \<and>
           (\<forall>i < length ks. notna (ks ! i) \<longrightarrow>
              (\<exists>t. score c (ks ! i) = Inr t \<and> t \<le> s \<and> (i < j \<longrightarrow> t < s)))"
proof -
  from best_match_loop_order[OF assms] obtain pre post where
    u: "unique ks = pre @ a # post" and na: "notna a" and sa: "score c a = Inr s"
    and half: "s > 1 / 2"
    and before: "\<forall>b \<in> set pre. notna b \<longrightarrow> (\<exists>t. score c b = Inr t \<and> t < s)"
    and after: "\<forall>b \<in> set post. notna b \<longrightarrow> (\<exists>t. score c b = Inr t \<and> t \<le> s)"
    by auto
  have npre: "a \<notin> set pre"
  proof
    assume "a \<in> set pre"
    with before na sa show False by auto
  qed
  have "a \<in> set (unique ks)" using u by simp
  then have "a \<in> set ks" by simp
  from split_list_first[OF this] obtain p q where pq: "ks = p @ a # q" "a \<notin> set p" by blast
  from unique_first_occurrence[OF pq(2), of q] pq(1) obtain q' where
    u': "unique ks = unique p @ a # q'" by auto
  have "a \<notin> set (unique p)" using pq(2) by simp
  have "distinct (pre @ a # post)" using distinct_unique[of ks] u by simp
  then have npost: "a \<notin> set post" by simp
  have "pre @ a # post = unique p @ a # q'" using u u' by simp
  with append_Cons_eq_iff[OF npre npost, of "unique p" q'] have pre: "pre = unique p" by simp
  have all: "\<forall>b \<in> set ks. notna b \<longrightarrow> (\<exists>t. score c b = Inr t \<and> t \<le> s)"
  proof (intro ballI impI)
    fix b assume "b \<in> set ks" "notna b"
    then have "b \<in> set (unique ks)" by simp
    then have "b \<in> set pre \<or> b = a \<or> b \<in> set post" using u by auto
    with before after sa \<open>notna b\<close> show "\<exists>t. score c b = Inr t \<and> t \<le> s" by force
  qed
  have "\<forall>i < length ks. notna (ks ! i) \<longrightarrow>
          (\<exists>t. score c (ks ! i) = Inr t \<and> t \<le> s \<and> (i < length p \<longrightarrow> t < s))"
  proof (intro allI impI)
    fix i assume i: "i < length ks" "notna (ks ! i)"
    from all i obtain t where t: "score c (ks ! i) = Inr t" "t \<le> s" by force
    have "i < length p \<longrightarrow> t < s"
    proof
      assume "i < length p"
      then have "ks ! i \<in> set p" using pq(1) by (simp add: nth_append)
      then have "ks ! i \<in> set pre" using pre by simp
      with before i(2) t show "t < s" by auto
    qed
    with t show "\<exists>t. score c (ks ! i) = Inr t \<and> t \<le> s \<and> (i < length p \<longrightarrow> t < s)" by blast
  qed
  moreover have "length p < length ks" "ks ! length p = a" using pq(1) by simp_all
  ultimately show ?thesis using na sa half by blast
qed

section \<open>The store\<close>

lemma merge_try_heap_frame:
  "x < length h \<Longrightarrow> fst (merge_try_heap h df c col) ! x = h ! x"
  unfolding merge_try_heap_def
  by (simp add: Let_def nth_append split: sum.splits)

lemma merge_try_heap_refines:
  assumes "df < length h" "c < length h"
  shows "case merge_try_heap h df c col of
           (h', Inr a) \<Rightarrow> snd (merge_try (h ! df) (h ! c) col) = Inr (h' ! a)
         | (h', Inl e) \<Rightarrow> snd (merge_try (h ! df) (h ! c) col) = Inl e"
  using assms unfolding merge_try_heap_def merge_try_def
  by (simp add: Let_def nth_append snd_bind_res ret_def lift_def logmsg_def split: sum.splits)

lemma merge_try_heap_fresh:
  "\<not> df_empty (h ! df) \<Longrightarrow> \<not> df_empty (h ! c) \<Longrightarrow>
   merge_try_heap h df c col = (h', Inr a) \<Longrightarrow> length h \<le> a \<and> a < length h'"
  unfolding merge_try_heap_def
  by (auto simp: Let_def split: sum.splits)

lemma merge_try_heap_early:
  "df_empty (h ! df) \<or> df_empty (h ! c) \<Longrightarrow> merge_try_heap h df c col = (h, Inr df)"
  by (simp add: merge_try_heap_def)

lemma merge_try_Inr_columns:
  assumes "\<not> df_empty df" "\<not> df_empty cities_df"
    and "snd (merge_try df cities_df col) = Inr r"
  shows "\<exists>city_col stadt bund. getitem df col = Inr city_col \<and>
           getitem cities_df ''Stadt'' = Inr stadt \<and> getitem cities_df ''Bundesland'' = Inr bund"
proof -
  obtain x where x: "getitem df col = x" by simp
  obtain y where y: "getitem cities_df ''Stadt'' = y" by simp
  obtain z where z: "getitem cities_df ''Bundesland'' = z" by simp
  show ?thesis
  proof (cases x)
    case (Inl e)
    with assms x show ?thesis by (simp add: merge_try_def)
  next
    case cx: (Inr city_col)
    show ?thesis
    proof (cases "str_strip_lower city_col")
      case (Inl e)
      with assms x cx show ?thesis by (simp add: merge_try_def)
    next
      case c1: (Inr cl)
      show ?thesis
      proof (cases y)
        case (Inl e)
        with assms x cx c1 y show ?thesis by (simp add: merge_try_def Let_def)
      next
        case cy: (Inr stadt)
        show ?thesis
        proof (cases "str_strip_lower stadt")
          case (Inl e)
          with assms x cx c1 y cy show ?thesis by (simp add: merge_try_def Let_def)
        next
          case c2: (Inr scl)
          show ?thesis
          proof (cases z)
            case (Inl e)
            with assms x cx c1 y cy c2 z show ?thesis
              by (simp add: merge_try_def Let_def getitem_setitem)
          next
            case (Inr bund)
            with x cx y cy z show ?thesis by simp
          qed
        qed
      qed
    qed
  qed
qed

section \<open>Claims on errors and on empty inputs\<close>

text \<open>
  C1. The claim: when the configured city field is not a column of the facility frame,
  the call fails with an error naming the field, which reaches the caller. The code
  raises a KeyError naming the field inside the try block, and the handler of the
  method catches it: the call returns normally, with the original frame.
\<close>

theorem missing_city_field_counterexample:
  "getitem [(''name'', [Str ''Bonn''])] ''city'' = Inl (KeyError (Str ''city'')) \<and>
   merge_with_bundesland [(''name'', [Str ''Bonn''])]
       [(''Stadt'', [Str ''Bonn'']), (''Bundesland'', [Str ''NRW''])] ''city''
     = ([LogError (KeyError (Str ''city''))], Inr [(''name'', [Str ''Bonn''])])"
  by code_simp

text \<open>
  C1, amended. When the city field is not a column of a non-empty facility frame (and
  the reference frame is not empty), a KeyError naming the field is raised inside the
  merge, caught there and logged, and the call returns the original frame unchanged:
  no error reaches the caller.
\<close>

theorem missing_city_field_returns_input:
  "\<not> df_empty df \<Longrightarrow> \<not> df_empty cities_df \<Longrightarrow> map_of df col = None \<Longrightarrow>
   merge_try df cities_df col = ([], Inl (KeyError (Str col))) \<and>
   merge_with_bundesland df cities_df col = ([LogError (KeyError (Str col))], Inr df)"
  by (simp add: merge_with_bundesland_def merge_try_def getitem_def)

theorem missing_city_field_returns_input_witness:
  "\<not> df_empty [(''name'', [Str ''Bonn''])] \<and>
   \<not> df_empty [(''Stadt'', [Str ''Bonn'']), (''Bundesland'', [Str ''NRW''])] \<and>
   map_of [(''name'', [Str ''Bonn''])] ''city'' = None \<and>
   merge_with_bundesland [(''name'', [Str ''Bonn''])]
       [(''Stadt'', [Str ''Bonn'']), (''Bundesland'', [Str ''NRW''])] ''city''
     = ([LogError (KeyError (Str ''city''))], Inr [(''name'', [Str ''Bonn''])])"
proof -
  have h: "\<not> df_empty [(''name'', [Str ''Bonn''])]"
    "\<not> df_empty [(''Stadt'', [Str ''Bonn'']), (''Bundesland'', [Str ''NRW''])]"
    "map_of [(''name'', [Str ''Bonn''])] ''city'' = None"
    by (simp_all add: df_empty_def)
  from missing_city_field_returns_input[OF h] h show ?thesis by simp
qed

text \<open>
  C4. The score of two names compared in the fuzzy pass is the size of the
  intersection of their character sets over the larger of the two set sizes. When both
  sets are empty the division raises instead.
\<close>

theorem score_formula:
  "score (Str a) (Str b) =
     (if set a = {} \<and> set b = {} then Inl ZeroDivisionError
      else Inr (of_nat (card (set a \<inter> set b)) / of_nat (max (card (set a)) (card (set b)))))"
  by (simp only: score_Str similarity_card)

theorem score_formula_witness:
  "score (Str ''koln'') (Str ''bonn'') = Inr (2 / 4)"
proof -
  have "set ''koln'' \<inter> set ''bonn'' = {CHR ''o'', CHR ''n''}" by auto
  moreover have "card (set ''koln'') = 4" "card (set ''bonn'') = 3" by simp_all
  ultimately show ?thesis using score_formula[of "''koln''" "''bonn''"] by simp
qed



text \<open>
  C10. No exception leaves the method. Whatever is raised inside the try block, a
  missing column or the division by zero of two empty character sets alike, is caught
  and logged, and the original frame is returned.
\<close>

theorem never_propagates:
  "(\<exists>r. snd (merge_with_bundesland df cities_df col) = Inr r) \<and>
   (\<forall>e. snd (merge_try df cities_df col) = Inl e \<longrightarrow>
        merge_with_bundesland df cities_df col
          = (fst (merge_try df cities_df col) @ [LogError e], Inr df))"
  by (cases "merge_try df cities_df col"; cases "snd (merge_try df cities_df col)")
     (auto simp: merge_with_bundesland_def)

theorem never_propagates_witness:
  "score (Str '''') (Str '''') = Inl ZeroDivisionError \<and>
   snd (merge_try [(''city'', [Str '' ''])]
          [(''Stadt'', [Str '''']), (''Bundesland'', [NaN])] ''city'') = Inl ZeroDivisionError \<and>
   merge_with_bundesland [(''city'', [Str '' ''])]
       [(''Stadt'', [Str '''']), (''Bundesland'', [NaN])] ''city''
     = ([LogInfoFuzzy 1, LogError ZeroDivisionError], Inr [(''city'', [Str '' ''])])"
proof -
  have t: "merge_try [(''city'', [Str '' ''])]
          [(''Stadt'', [Str '''']), (''Bundesland'', [NaN])] ''city''
        = ([LogInfoFuzzy 1], Inl ZeroDivisionError)"
    by code_simp
  have s: "score (Str '''') (Str '''') = Inl ZeroDivisionError" by code_simp
  from never_propagates[of "[(''city'', [Str '' ''])]"
      "[(''Stadt'', [Str '''']), (''Bundesland'', [NaN])]" "''city''"] t s
  show ?thesis by simp
qed

section \<open>Claims on the exact pass\<close>

text \<open>
  C2. The claim: a facility whose normalised city name equals the normalised name of
  some reference row gets that row's region. The mapping keeps one region per
  normalised name, the one of the last row with that name: with two reference rows
  of the same normalised name and different regions, the facility gets the region of
  the second row, not that of the first, which its name equals just as well.
\<close>

theorem exact_match_earlier_duplicate_counterexample:
  "clean_cell (Str ''berlin'') = clean_cell (Str ''Berlin'') \<and>
   merge_with_bundesland [(''city'', [Str ''berlin''])]
       [(''Stadt'', [Str ''Berlin'', Str ''berlin '']),
        (''Bundesland'', [Str ''Berlin'', Str ''BerlinAlt''])] ''city''
     = ([LogInfoResults 1 1],
        Inr [(''city'', [Str ''berlin'']), (''bundesland'', [Str ''BerlinAlt''])])"
  by code_simp

text \<open>
  C2, amended. In well-formed frames that have the columns, when every reference row
  has a region: a facility whose normalised city name equals the normalised name of a
  reference row gets, in the exact pass, the region of the last reference row with
  that normalised name. The merge completes, and the facility is not among the rows
  handed to the fuzzy loop, whatever the other reference names score.
\<close>

theorem exact_match_priority:
  assumes ne: "\<not> df_empty df" "\<not> df_empty cities_df"
    and wf: "wf_frame df" "wf_frame cities_df"
    and col: "getitem df col = Inr city_col"
    and stadt: "getitem cities_df ''Stadt'' = Inr stadt"
    and bund: "getitem cities_df ''Bundesland'' = Inr bund"
    and regions: "\<forall>v \<in> set bund. notna v"
    and i: "i < length city_col" "city_col ! i = Str s"
    and j: "j < length stadt" "stadt ! j = Str t"
    and same: "str_lower (str_strip s) = str_lower (str_strip t)"
    and last: "\<forall>j'. j < j' \<and> j' < length stadt \<longrightarrow> clean_cell (stadt ! j') \<noteq> clean_cell (stadt ! j)"
  shows "\<exists>r bl. snd (merge_try df cities_df col) = Inr r \<and>
           snd (merge_with_bundesland df cities_df col) = Inr r \<and>
           getitem r ''bundesland'' = Inr bl \<and> bl ! i = bund ! j \<and>
           i \<notin> set (isna_index (series_map (dict_zip (map clean_cell stadt) bund)
                                  (map clean_cell city_col)))"
proof -
  let ?sc = "map clean_cell stadt"
  have len: "length stadt = length bund" by (rule wf_frame_columns_length[OF wf(2) stadt bund])
  have s1: "list_ex is_Str city_col" by (rule list_ex_is_Str_nth[OF i])
  have s2: "list_ex is_Str stadt" by (rule list_ex_is_Str_nth[OF j])
  from merge_try_success_regions[OF ne wf(1) col s1 stadt s2 bund _ regions] len
  obtain r where r: "snd (merge_try df cities_df col) = Inr r" by auto
  have "\<forall>j'. j < j' \<and> j' < length ?sc \<and> j' < length bund \<longrightarrow> ?sc ! j' \<noteq> ?sc ! j"
    using last j(1) by simp
  from dict_zip_last[OF _ _ this] j(1) len
  have "dict_zip ?sc bund (?sc ! j) = Some (bund ! j)" by simp
  moreover have "?sc ! j = clean_cell (city_col ! i)" using i j same by simp
  ultimately have hit: "dict_zip ?sc bund (clean_cell (city_col ! i)) = Some (bund ! j)" by simp
  have nn: "notna (bund ! j)" using regions j(1) len by simp
  from merge_try_exact_row[OF ne wf(1) col stadt bund r i(1) hit nn]
    merge_with_bundesland_snd_Inr[OF r] r
  show ?thesis by blast
qed

theorem exact_match_priority_witness:
  "\<exists>r bl. snd (merge_with_bundesland
              [(''city'', [Str ''ulm'', Str ''ulm x''])]
              [(''Stadt'', [Str ''Ulm '', Str ''ulm xy'']), (''Bundesland'', [Str ''BW'', Str ''ZZ''])]
              ''city'') = Inr r \<and>
          getitem r ''bundesland'' = Inr bl \<and> bl ! 0 = Str ''BW''"
proof -
  let ?df = "[(''city'', [Str ''ulm'', Str ''ulm x''])]"
  let ?c = "[(''Stadt'', [Str ''Ulm '', Str ''ulm xy'']), (''Bundesland'', [Str ''BW'', Str ''ZZ''])]"
  have ne: "\<not> df_empty ?df" "\<not> df_empty ?c" by (simp_all add: df_empty_def)
  have wf: "wf_frame ?df" "wf_frame ?c" by (simp_all add: wf_frame_def df_len_def)
  have col: "getitem ?df ''city'' = Inr [Str ''ulm'', Str ''ulm x'']" by (simp add: getitem_def)
  have stadt: "getitem ?c ''Stadt'' = Inr [Str ''Ulm '', Str ''ulm xy'']" by (simp add: getitem_def)
  have bund: "getitem ?c ''Bundesland'' = Inr [Str ''BW'', Str ''ZZ'']" by (simp add: getitem_def)
  have regions: "\<forall>v \<in> set [Str ''BW'', Str ''ZZ'']. notna v" by (simp add: notna_def)
  have i: "0 < length [Str ''ulm'', Str ''ulm x'']" "[Str ''ulm'', Str ''ulm x''] ! 0 = Str ''ulm''"
    by simp_all
  have j: "0 < length [Str ''Ulm '', Str ''ulm xy'']" "[Str ''Ulm '', Str ''ulm xy''] ! 0 = Str ''Ulm ''"
    by simp_all
  have same: "str_lower (str_strip ''ulm'') = str_lower (str_strip ''Ulm '')" by code_simp
  have c1: "clean_cell (Str ''ulm xy'') \<noteq> clean_cell (Str ''Ulm '')" by code_simp
  have last: "\<forall>j'. 0 < j' \<and> j' < length [Str ''Ulm '', Str ''ulm xy''] \<longrightarrow>
      clean_cell ([Str ''Ulm '', Str ''ulm xy''] ! j') \<noteq> clean_cell ([Str ''Ulm '', Str ''ulm xy''] ! 0)"
  proof (intro allI impI)
    fix j' :: nat
    assume "0 < j' \<and> j' < length [Str ''Ulm '', Str ''ulm xy'']"
    then have "j' = 1" by simp
    then show "clean_cell ([Str ''Ulm '', Str ''ulm xy''] ! j') \<noteq> clean_cell ([Str ''Ulm '', Str ''ulm xy''] ! 0)"
      using c1 by simp
  qed
  from exact_match_priority[OF ne wf col stadt bund regions i j same last]
  show ?thesis by auto
qed



section \<open>Claims on the fuzzy pass\<close>

text \<open>
  C3. A facility that the exact pass left without a region and that has one when the
  merge completes got it from a reference name whose score against its normalised
  name is strictly greater than one half. So a facility whose candidates all score one
  half or less stays unmatched.
\<close>

theorem fuzzy_threshold:
  assumes ne: "\<not> df_empty df" "\<not> df_empty cities_df"
    and wf: "wf_frame df"
    and col: "getitem df col = Inr city_col"
    and stadt: "getitem cities_df ''Stadt'' = Inr stadt"
    and bund: "getitem cities_df ''Bundesland'' = Inr bund"
    and ok: "snd (merge_try df cities_df col) = Inr r"
    and bl: "getitem r ''bundesland'' = Inr bl"
    and i: "i < length city_col"
    and unmatched: "series_map (dict_zip (map clean_cell stadt) bund) (map clean_cell city_col) ! i = NaN"
    and resolved: "notna (bl ! i)"
  shows "\<exists>a t. a \<in> set (map clean_cell stadt) \<and>
           score (clean_cell (city_col ! i)) a = Inr t \<and> t > 1 / 2 \<and>
           dict_zip (map clean_cell stadt) bund a = Some (bl ! i)"
proof -
  let ?sc = "map clean_cell stadt"
  let ?m = "dict_zip ?sc bund"
  let ?clean = "map clean_cell city_col"
  let ?bl0 = "series_map ?m ?clean"
  from merge_try_Inr[OF ne wf col stadt bund ok] bl obtain lg where
    fl: "fuzzy_loop ?m (unique ?sc) ?clean (isna_index ?bl0) ?bl0 = (lg, Inr bl)"
    by auto
  have "bl ! i \<noteq> ?bl0 ! i" using unmatched resolved by (simp add: notna_def)
  from fuzzy_loop_changed[OF fl this] obtain a t where
    b: "best_match_loop (?clean ! i) (unique ?sc) (None, 0) = Inr (Some a, t)"
    and m: "?m a = Some (bl ! i)" by blast
  from best_match_loop_inv[OF b] have "a \<in> set (unique ?sc)" "score (?clean ! i) a = Inr t" "t > 1 / 2"
    by auto
  with m i show ?thesis by auto
qed

theorem fuzzy_threshold_witness:
  "\<exists>a t. a \<in> set (map clean_cell [Str ''Ulm'', Str ''Koeln'']) \<and>
      score (clean_cell ([Str ''Koln''] ! 0)) a = Inr t \<and> t > 1 / 2 \<and>
      dict_zip (map clean_cell [Str ''Ulm'', Str ''Koeln'']) [Str ''BW'', Str ''NRW''] a
        = Some ([Str ''NRW''] ! 0)"
proof -
  let ?df = "[(''city'', [Str ''Koln''])]"
  let ?st = "[Str ''Ulm'', Str ''Koeln'']"
  let ?bu = "[Str ''BW'', Str ''NRW'']"
  let ?c = "[(''Stadt'', ?st), (''Bundesland'', ?bu)]"
  let ?r = "[(''city'', [Str ''Koln'']), (''bundesland'', [Str ''NRW''])]"
  have ne: "\<not> df_empty ?df" "\<not> df_empty ?c" by (simp_all add: df_empty_def)
  have wf: "wf_frame ?df" by (simp add: wf_frame_def df_len_def)
  have col: "getitem ?df ''city'' = Inr [Str ''Koln'']" by (simp add: getitem_def)
  have stadt: "getitem ?c ''Stadt'' = Inr ?st" by (simp add: getitem_def)
  have bund: "getitem ?c ''Bundesland'' = Inr ?bu" by (simp add: getitem_def)
  have ok: "snd (merge_try ?df ?c ''city'') = Inr ?r" by code_simp
  have bl: "getitem ?r ''bundesland'' = Inr [Str ''NRW'']" by (simp add: getitem_def)
  have i: "0 < length [Str ''Koln'']" by simp
  have unmatched: "series_map (dict_zip (map clean_cell ?st) ?bu) (map clean_cell [Str ''Koln'']) ! 0 = NaN"
    by code_simp
  have resolved: "notna ([Str ''NRW''] ! 0)" by (simp add: notna_def)
  from fuzzy_threshold[OF ne wf col stadt bund ok bl i unmatched resolved]
  show ?thesis .
qed



section \<open>Claims on missing and empty city values\<close>




section \<open>Claims on the objects read and written\<close>

text \<open>
  C9. The claim: the method returns a new dataset, the input's fields plus the region
  field. With an empty reference table the method returns the input object itself,
  without a region column.
\<close>

theorem returns_input_object_counterexample:
  "merge_with_bundesland_heap [[(''city'', [Str ''Ulm''])], []] 0 1 ''city''
     = ([[(''city'', [Str ''Ulm''])], []], 0) \<and>
   getitem ([[(''city'', [Str ''Ulm''])], []] ! 0) ''bundesland'' = Inl (KeyError (Str ''bundesland''))"
  by code_simp

text \<open>
  C9, amended. The method never writes a dataset it is given: every frame object that
  existed before the call is unchanged after it. On an empty input, and when an
  exception is caught, it returns the input object itself. When both inputs are
  non-empty and the try block completes, it returns a new object: every column of the
  input other than one named \<open>bundesland\<close> or like the temporary column is there with
  its values, the column \<open>bundesland\<close> holds one region cell per row, and there is no
  temporary column.
\<close>

theorem input_not_mutated:
  assumes a: "df < length h" "c < length h"
    and res: "merge_with_bundesland_heap h df c col = (h', r)"
  shows "(\<forall>x < length h. h' ! x = h ! x) \<and>
         (df_empty (h ! df) \<or> df_empty (h ! c) \<or> (\<exists>e. snd (merge_try_heap h df c col) = Inl e)
            \<longrightarrow> r = df) \<and>
         (\<not> df_empty (h ! df) \<and> \<not> df_empty (h ! c) \<and> wf_frame (h ! df) \<and>
          snd (merge_try_heap h df c col) = Inr r \<longrightarrow>
            length h \<le> r \<and> r < length h' \<and>
            getitem (h' ! r) (col @ ''_clean'') = Inl (KeyError (Str (col @ ''_clean''))) \<and>
            (\<exists>bl. getitem (h' ! r) ''bundesland'' = Inr bl \<and> length bl = df_len (h ! df)) \<and>
            (\<forall>k. k \<noteq> ''bundesland'' \<and> k \<noteq> col @ ''_clean'' \<longrightarrow>
                 getitem (h' ! r) k = getitem (h ! df) k))"
proof (intro conjI impI allI)
  fix x assume "x < length h"
  from merge_try_heap_frame[OF this, of df c col] res
  show "h' ! x = h ! x"
    by (cases "merge_try_heap h df c col"; cases "snd (merge_try_heap h df c col)")
       (auto simp: merge_with_bundesland_heap_def)
next
  assume "df_empty (h ! df) \<or> df_empty (h ! c) \<or> (\<exists>e. snd (merge_try_heap h df c col) = Inl e)"
  then show "r = df"
  proof (elim disjE exE)
    fix e assume "snd (merge_try_heap h df c col) = Inl e"
    with res show ?thesis
      by (cases "merge_try_heap h df c col") (auto simp: merge_with_bundesland_heap_def)
  next
    assume "df_empty (h ! df)"
    with res show ?thesis by (simp add: merge_with_bundesland_heap_def merge_try_heap_early)
  next
    assume "df_empty (h ! c)"
    with res show ?thesis by (simp add: merge_with_bundesland_heap_def merge_try_heap_early)
  qed
next
  assume h: "\<not> df_empty (h ! df) \<and> \<not> df_empty (h ! c) \<and> wf_frame (h ! df) \<and>
          snd (merge_try_heap h df c col) = Inr r"
  then have ne: "\<not> df_empty (h ! df)" "\<not> df_empty (h ! c)" and wf: "wf_frame (h ! df)"
    and s: "snd (merge_try_heap h df c col) = Inr r" by simp_all
  from s res have t: "merge_try_heap h df c col = (h', Inr r)"
    by (cases "merge_try_heap h df c col") (auto simp: merge_with_bundesland_heap_def)
  from merge_try_heap_fresh[OF ne t] have fresh: "length h \<le> r" "r < length h'" by simp_all
  from merge_try_heap_refines[OF a, of col] t
  have ok: "snd (merge_try (h ! df) (h ! c) col) = Inr (h' ! r)" by simp
  from merge_try_Inr_columns[OF ne ok] obtain city_col stadt bund where
    cols: "getitem (h ! df) col = Inr city_col" "getitem (h ! c) ''Stadt'' = Inr stadt"
      "getitem (h ! c) ''Bundesland'' = Inr bund" by blast
  from merge_try_Inr[OF ne wf cols ok] obtain bl' where
    r: "h' ! r = setitem (filter (\<lambda>p. fst p \<noteq> col @ ''_clean'') (h ! df)) ''bundesland'' bl'"
    and len: "length bl' = length city_col" by blast
  have nb: "col @ ''_clean'' \<noteq> ''bundesland''" by (rule clean_name_neq_bundesland)
  have g1: "getitem (h' ! r) (col @ ''_clean'') = Inl (KeyError (Str (col @ ''_clean'')))"
    unfolding r using nb by (simp add: getitem_def map_of_setitem map_of_filter_fst)
  have g2: "\<exists>bl. getitem (h' ! r) ''bundesland'' = Inr bl \<and> length bl = df_len (h ! df)"
    unfolding r using len wf_frame_getitem[OF wf cols(1)] by (simp add: getitem_setitem)
  have g3: "\<forall>k. k \<noteq> ''bundesland'' \<and> k \<noteq> col @ ''_clean'' \<longrightarrow>
                getitem (h' ! r) k = getitem (h ! df) k"
    unfolding r by (simp add: getitem_setitem getitem_filter_other)
  from fresh g1 g2 g3
  show "length h \<le> r" "r < length h'"
    "getitem (h' ! r) (col @ ''_clean'') = Inl (KeyError (Str (col @ ''_clean'')))"
    "\<exists>bl. getitem (h' ! r) ''bundesland'' = Inr bl \<and> length bl = df_len (h ! df)"
    by simp_all
  fix k assume "k \<noteq> ''bundesland'' \<and> k \<noteq> col @ ''_clean''"
  with g3 show "getitem (h' ! r) k = getitem (h ! df) k" by simp
qed

theorem input_not_mutated_witness:
  "merge_with_bundesland_heap
      [[(''city'', [Str ''Ulm '']), (''area'', [Num 3])],
       [(''Stadt'', [Str ''ulm'']), (''Bundesland'', [Str ''BW''])]] 0 1 ''city''
     = ([[(''city'', [Str ''Ulm '']), (''area'', [Num 3])],
         [(''Stadt'', [Str ''ulm'']), (''Bundesland'', [Str ''BW''])],
         [(''city'', [Str ''Ulm '']), (''area'', [Num 3]),
          (''city_clean'', [Str ''ulm'']), (''bundesland'', [Str ''BW''])],
         [(''Stadt'', [Str ''ulm'']), (''Bundesland'', [Str ''BW'']),
          (''Stadt_clean'', [Str ''ulm''])],
         [(''city'', [Str ''Ulm '']), (''area'', [Num 3]), (''bundesland'', [Str ''BW''])]], 4) \<and>
   getitem [(''city'', [Str ''Ulm '']), (''area'', [Num 3]), (''bundesland'', [Str ''BW''])] ''area''
     = getitem [(''city'', [Str ''Ulm '']), (''area'', [Num 3])] ''area'' \<and>
   getitem [(''city'', [Str ''Ulm '']), (''area'', [Num 3]), (''bundesland'', [Str ''BW''])]
       (''city'' @ ''_clean'') = Inl (KeyError (Str (''city'' @ ''_clean''))) \<and>
   length [[(''city'', [Str ''Ulm '']), (''area'', [Num 3])],
           [(''Stadt'', [Str ''ulm'']), (''Bundesland'', [Str ''BW''])]] \<le> 4"
proof -
  define df where "df = [(''city'', [Str ''Ulm '']), (''area'', [Num 3])]"
  define c where "c = [(''Stadt'', [Str ''ulm'']), (''Bundesland'', [Str ''BW''])]"
  define r where
    "r = [(''city'', [Str ''Ulm '']), (''area'', [Num 3]), (''bundesland'', [Str ''BW''])]"
  define e where
    "e = [(''city'', [Str ''Ulm '']), (''area'', [Num 3]),
          (''city_clean'', [Str ''ulm'']), (''bundesland'', [Str ''BW''])]"
  define k where
    "k = [(''Stadt'', [Str ''ulm'']), (''Bundesland'', [Str ''BW'']),
          (''Stadt_clean'', [Str ''ulm''])]"
  define h where "h = [df, c]"
  define h' where "h' = [df, c, e, k, r]"
  have a: "0 < length h" "1 < length h" by (simp_all add: h_def)
  have res: "merge_with_bundesland_heap h 0 1 ''city'' = (h', 4)"
    unfolding h_def h'_def df_def c_def e_def k_def r_def by code_simp
  have t: "snd (merge_try_heap h 0 1 ''city'') = Inr 4"
    unfolding h_def df_def c_def by code_simp
  have p1: "\<not> df_empty (h ! 0)" by (simp add: h_def df_def df_empty_def)
  have p2: "\<not> df_empty (h ! 1)" by (simp add: h_def c_def df_empty_def)
  have p3: "wf_frame (h ! 0)" by (simp add: h_def df_def wf_frame_def df_len_def)
  note th = input_not_mutated[OF a res]
  from th have imp: "\<not> df_empty (h ! 0) \<and> \<not> df_empty (h ! 1) \<and> wf_frame (h ! 0) \<and>
          snd (merge_try_heap h 0 1 ''city'') = Inr 4 \<longrightarrow>
            length h \<le> 4 \<and> 4 < length h' \<and>
            getitem (h' ! 4) (''city'' @ ''_clean'') = Inl (KeyError (Str (''city'' @ ''_clean''))) \<and>
            (\<exists>bl. getitem (h' ! 4) ''bundesland'' = Inr bl \<and> length bl = df_len (h ! 0)) \<and>
            (\<forall>k. k \<noteq> ''bundesland'' \<and> k \<noteq> ''city'' @ ''_clean'' \<longrightarrow>
                 getitem (h' ! 4) k = getitem (h ! 0) k)"
    by (rule conjunct2[THEN conjunct2])
  from imp p1 p2 p3 t have concl:
    "length h \<le> 4 \<and> 4 < length h' \<and>
     getitem (h' ! 4) (''city'' @ ''_clean'') = Inl (KeyError (Str (''city'' @ ''_clean''))) \<and>
     (\<exists>bl. getitem (h' ! 4) ''bundesland'' = Inr bl \<and> length bl = df_len (h ! 0)) \<and>
     (\<forall>k. k \<noteq> ''bundesland'' \<and> k \<noteq> ''city'' @ ''_clean'' \<longrightarrow>
          getitem (h' ! 4) k = getitem (h ! 0) k)"
    by (rule_tac mp) (assumption, intro conjI)
  have nk: "''area'' \<noteq> ''bundesland'' \<and> ''area'' \<noteq> ''city'' @ ''_clean''" by simp
  from concl have c1: "length h \<le> 4" by (rule conjunct1)
  from concl have c3: "getitem (h' ! 4) (''city'' @ ''_clean'') = Inl (KeyError (Str (''city'' @ ''_clean'')))"
    by (rule conjunct2[THEN conjunct2, THEN conjunct1])
  from concl have "\<forall>k. k \<noteq> ''bundesland'' \<and> k \<noteq> ''city'' @ ''_clean'' \<longrightarrow>
          getitem (h' ! 4) k = getitem (h ! 0) k"
    by (rule conjunct2[THEN conjunct2, THEN conjunct2, THEN conjunct2])
  then have "''area'' \<noteq> ''bundesland'' \<and> ''area'' \<noteq> ''city'' @ ''_clean'' \<longrightarrow>
          getitem (h' ! 4) ''area'' = getitem (h ! 0) ''area''" by (rule spec)
  from this nk have c5: "getitem (h' ! 4) ''area'' = getitem (h ! 0) ''area''" by (rule mp)
  have i4: "h' ! 4 = r" by (simp add: h'_def)
  have i0: "h ! 0 = df" by (simp add: h_def)
  from res c5[unfolded i4 i0] c3[unfolded i4] c1
  have "merge_with_bundesland_heap h 0 1 ''city'' = (h', 4) \<and>
        getitem r ''area'' = getitem df ''area'' \<and>
        getitem r (''city'' @ ''_clean'') = Inl (KeyError (Str (''city'' @ ''_clean''))) \<and>
        length h \<le> 4"
    by (intro conjI)
  then show ?thesis unfolding h_def h'_def df_def c_def e_def k_def r_def .
qed

end
